theory Spec2Isabelle
  imports Main "HOL-Library.Word" "HOL-Library.Signed_Division"
begin

section \<open>megadl (tools/dl.c): data model\<close>

subsection \<open>GLib values used by the tool\<close>

text \<open>
  Modelled from the spec: the error domains \<open>MEGA_ERROR\<close> and \<open>HTTP_ERROR\<close> of the library
  (mega.h and http.h are not among the sources). \<open>G_IO_ERROR\<close> is the domain of GLib's file
  operations; any other domain is a quark of its own.
\<close>

datatype GQuark = MEGA_ERROR | HTTP_ERROR | G_IO_ERROR | GQuark nat

text \<open>
  A \<open>GError\<close> carries an error domain (a quark), a code and a message. The tool only
  ever compares domain and code, through \<open>g_error_matches\<close>.
\<close>

record GError =
  domain :: GQuark
  code :: int
  message :: string

text \<open>
  Modelled from the spec: the header mega.h, which declares the enumerators of the
  \<open>MEGA_ERROR\<close> domain, is not among the sources. The spec only says that errors are
  split into transient and permanent ones; \<open>MEGA_ERROR_OTHER\<close> is taken as the first
  enumerator. No theorem below depends on its numeric value.
\<close>

definition MEGA_ERROR_OTHER :: int where
  "MEGA_ERROR_OTHER = 0"

definition g_error_matches :: "GError \<Rightarrow> GQuark \<Rightarrow> int \<Rightarrow> bool" where
  "g_error_matches err d c = (domain err = d \<and> code err = c)"

datatype GFileType =
    G_FILE_TYPE_UNKNOWN
  | G_FILE_TYPE_REGULAR
  | G_FILE_TYPE_DIRECTORY
  | G_FILE_TYPE_SYMBOLIC_LINK
  | G_FILE_TYPE_SPECIAL
  | G_FILE_TYPE_SHORTCUT
  | G_FILE_TYPE_MOUNTABLE

text \<open>
  The local file system, as far as the tool observes it: which paths exist, and the type
  (not following symbolic links) of the object at each. A \<open>GFile\<close> is identified with its
  path. GLib keeps the path of a \<open>GFile\<close> in canonical form, with single separators and
  without the components \<open>.\<close> and \<open>..\<close>, so that two files with different paths are
  different entries of the file system; names are compared byte by byte.
\<close>

type_synonym filesystem = "string \<rightharpoonup> GFileType"

definition g_file_query_exists :: "filesystem \<Rightarrow> string \<Rightarrow> bool" where
  "g_file_query_exists f p = (f p \<noteq> None)"

definition g_file_query_file_type :: "filesystem \<Rightarrow> string \<Rightarrow> GFileType" where
  "g_file_query_file_type f p = (case f p of None \<Rightarrow> G_FILE_TYPE_UNKNOWN | Some t \<Rightarrow> t)"

text \<open>
  \<open>g_file_get_child\<close> resolves the name against the path of the directory and returns
  the canonical result. The name is taken component by component: an empty component and
  \<open>.\<close> stand for the directory itself and \<open>..\<close> for its parent; any other component is
  appended after a single separator. GLib expects a relative name here.
\<close>

fun path_components :: "string \<Rightarrow> string list" where
  "path_components [] = [[]]"
| "path_components (c # s) =
     (if c = CHR ''/'' then [] # path_components s
      else (case path_components s of x # xs \<Rightarrow> (c # x) # xs | [] \<Rightarrow> [[c]]))"

definition path_parent :: "string \<Rightarrow> string" where
  "path_parent p =
     (if CHR ''/'' \<notin> set p then p @ ''/..''
      else (let d = rev (tl (dropWhile (\<lambda>c. c \<noteq> CHR ''/'') (rev p)))
            in if d = [] then ''/'' else d))"

definition path_child :: "string \<Rightarrow> string \<Rightarrow> string" where
  "path_child p c =
     (if c = [] \<or> c = ''.'' then p
      else if c = ''..'' then path_parent p
      else if p \<noteq> [] \<and> last p = CHR ''/'' then p @ c
      else p @ ''/'' @ c)"

definition g_file_get_child :: "string \<Rightarrow> string \<Rightarrow> string" where
  "g_file_get_child file nm = foldl path_child file (path_components nm)"

subsection \<open>Session values\<close>

text \<open>
  Modelled from the spec: the status events of the session (mega.h is not among the
  sources): raw data, the name of the file being transferred, and progress.
\<close>

datatype mega_status_data =
    MEGA_STATUS_DATA (buf: string)
  | MEGA_STATUS_FILEINFO (fileinfo_name: string)
  | MEGA_STATUS_PROGRESS (bytes_done: nat) (bytes_total: nat)

text \<open>
  Modelled from the spec: \<open>mega_node\<close> and \<open>mega_session_get_node_chilren\<close> (mega.h and
  lib/mega.c are not among the sources). A remote node has a name and a type (0 is a
  file, as \<open>dl_sync_dir\<close> tests it); \<open>children\<close> are the nodes the session lists for it,
  in the order of the session.
\<close>

datatype mega_node = Node (name: string) (type: int) (children: "mega_node list")

subsection \<open>Observable actions\<close>

text \<open>One constructor per message the tool formats, holding the arguments of the format.\<close>

datatype msg =
    Err_file_exists string
  | Out_F string
  | Out_attempt_failed int int
  | Out_clreol
  | Out_clreol_nl
  | Err_download_failed string string
  | Err_download_failed_link string string
  | Out_name "string option"
  | Out_D string
  | Err_cant_create_dir string string
  | Err_cant_create_dir_file_exists string
  | Err_no_links
  | Err_stream_multiple
  | Out_downloaded "string option"
  | Err_stream_directory
  | Err_cant_open_folder string string
  | Err_must_be_directory string
  | Err_multiple_toplevel
  | Warn_invalid_link string

datatype event =
    Print msg
  | PrintErr msg
  | Fwrite string
  | ShowProgress "string option" mega_status_data
  | Usleep "64 word"
  | MakeDirectory string
  | StartSession
  | WatchStatus
  | SessionGet string string
  | SessionDl string string "string option"
  | SessionOpenExpFolder string string
  | SessionLs string
  | ToolFini

subsection \<open>Program state and environment\<close>

text \<open>
  The static variables of dl.c, the local file system, the number of session operations
  performed so far and the sequence of actions taken.
\<close>

record world =
  opt_path :: string
  opt_stream :: bool
  opt_noprogress :: bool
  opt_print_names :: bool
  cur_file :: "string option"
  fs :: filesystem
  ncalls :: nat
  trace :: "event list"

text \<open>What the remote side answers to a fetch: failure or not, and the status events it delivers.\<close>

record reply =
  failure :: "GError option"
  status_events :: "mega_status_data list"
  leaves_partial :: bool

text \<open>
  The environment of one run: the answer of the session to its n-th operation, the path
  the session gives a node, and the error (if any) the operating system reports when the
  directory at a path is created.
\<close>

record env =
  get_reply :: "nat \<Rightarrow> string \<Rightarrow> string \<Rightarrow> reply"
  dl_reply :: "nat \<Rightarrow> string \<Rightarrow> string \<Rightarrow> string option \<Rightarrow> reply"
  open_exp_folder_reply :: "nat \<Rightarrow> string \<Rightarrow> string \<Rightarrow> GError option"
  ls_reply :: "nat \<Rightarrow> string \<Rightarrow> mega_node list"
  mega_node_get_path_dup :: "mega_node \<Rightarrow> string"
  make_directory_error :: "string \<Rightarrow> GError option"

definition emit :: "event \<Rightarrow> world \<Rightarrow> world" where
  "emit e w = w\<lparr>trace := trace w @ [e]\<rparr>"

definition g_print :: "msg \<Rightarrow> world \<Rightarrow> world" where
  "g_print m = emit (Print m)"

definition g_printerr :: "msg \<Rightarrow> world \<Rightarrow> world" where
  "g_printerr m = emit (PrintErr m)"

definition g_usleep :: "64 word \<Rightarrow> world \<Rightarrow> world" where
  "g_usleep t = emit (Usleep t)"

definition g_file_make_directory :: "env \<Rightarrow> string \<Rightarrow> world \<Rightarrow> GError option \<times> world" where
  "g_file_make_directory E file w =
     (let w1 = emit (MakeDirectory file) w in
      if fs w1 file \<noteq> None then (Some \<lparr>domain = G_IO_ERROR, code = 2, message = ''File exists''\<rparr>, w1)
      else case make_directory_error E file of
             Some e \<Rightarrow> (Some e, w1)
           | None \<Rightarrow> (None, w1\<lparr>fs := (fs w1)(file \<mapsto> G_FILE_TYPE_DIRECTORY)\<rparr>))"

section \<open>Progress reporter\<close>

definition status_callback :: "mega_status_data \<Rightarrow> world \<Rightarrow> world" where
  "status_callback data w =
     (let w1 = (if opt_stream w \<and> is_MEGA_STATUS_DATA data then emit (Fwrite (buf data)) w else w);
          w2 = (if is_MEGA_STATUS_FILEINFO data then w1\<lparr>cur_file := Some (fileinfo_name data)\<rparr> else w1);
          w3 = (if \<not> opt_noprogress w2 \<and> is_MEGA_STATUS_PROGRESS data
                then emit (ShowProgress (cur_file w2) data) w2 else w2)
      in w3)"

definition deliver :: "mega_status_data list \<Rightarrow> world \<Rightarrow> world" where
  "deliver evs w = foldl (\<lambda>w d. status_callback d w) w evs"

section \<open>Session operations\<close>

text \<open>
  Modelled from the spec: \<open>mega_session_get\<close> (lib/mega.c is not among the sources) is the
  single-object fetch of the session. It delivers status events to the subscribed
  callback while it runs and returns success or an error. On success the object exists
  at the local path; on failure a partial file may be left behind.
\<close>

definition mega_session_get :: "env \<Rightarrow> string \<Rightarrow> string \<Rightarrow> world \<Rightarrow> GError option \<times> world" where
  "mega_session_get E local_path remote_path w =
     (let r = get_reply E (ncalls w) local_path remote_path;
          w1 = emit (SessionGet local_path remote_path) (w\<lparr>ncalls := Suc (ncalls w)\<rparr>);
          w2 = deliver (status_events r) w1
      in case failure r of
           None \<Rightarrow> (None, w2\<lparr>fs := (fs w2)(local_path \<mapsto> G_FILE_TYPE_REGULAR)\<rparr>)
         | Some e \<Rightarrow>
             (Some e, if leaves_partial r
                      then w2\<lparr>fs := (fs w2)(local_path \<mapsto> G_FILE_TYPE_REGULAR)\<rparr> else w2))"

section \<open>Tree sync: the file step\<close>

text \<open>
  The retry loop of \<open>dl_sync_file\<close>. The loop variables \<open>attempts\<close>, \<open>sleep_amt\<close> and
  \<open>status\<close> are arguments; \<open>sleep_amt\<close> is a 64-bit integer, shifted left by one after each
  wait.
\<close>

function dl_sync_file_loop ::
  "env \<Rightarrow> string \<Rightarrow> string \<Rightarrow> int \<Rightarrow> 64 word \<Rightarrow> bool \<Rightarrow> world \<Rightarrow> bool \<times> world" where
  "dl_sync_file_loop E local_path remote_path attempts sleep_amt status w =
     (if attempts < 5 then
        (let (sleep_amt1, w1) =
               (if attempts > 0
                then (push_bit 1 sleep_amt,
                      g_usleep sleep_amt
                        (g_print (Out_attempt_failed attempts (sint sleep_amt sdiv 1000000)) w))
                else (sleep_amt, w))
         in case mega_session_get E local_path remote_path w1 of
              (Some local_err, w2) \<Rightarrow>
                (let w3 = (if \<not> opt_noprogress w2 then g_print Out_clreol w2 else w2);
                     w4 = g_printerr (Err_download_failed remote_path (message local_err)) w3
                 in if g_error_matches local_err MEGA_ERROR MEGA_ERROR_OTHER
                    then (False, w4)
                    else dl_sync_file_loop E local_path remote_path (attempts + 1) sleep_amt1 False w4)
            | (None, w2) \<Rightarrow> (True, w2))
      else (status, w))"
  by pat_completeness auto
termination
  by (relation "measure (\<lambda>(E, lp, rp, attempts, sl, st, w). nat (5 - attempts))") auto

definition dl_sync_file :: "env \<Rightarrow> mega_node \<Rightarrow> string \<Rightarrow> string \<Rightarrow> world \<Rightarrow> bool \<times> world" where
  "dl_sync_file E node file remote_path w =
     (let local_path = file in
      if g_file_query_exists (fs w) file
      then (False, g_printerr (Err_file_exists local_path) w)
      else
        (let w1 = (if \<not> opt_noprogress w then g_print (Out_F local_path) w else w) in
         case dl_sync_file_loop E local_path remote_path 0 2000000 True w1 of
           (status, w2) \<Rightarrow>
             if \<not> status then (False, w2)
             else
               (let w3 = (if \<not> opt_noprogress w2 then g_print Out_clreol w2 else w2);
                    w4 = (if opt_print_names w3 then g_print (Out_name (Some local_path)) w3 else w3)
                in (True, w4))))"

section \<open>Tree sync: the directory step and the walk\<close>

text \<open>
  The first part of \<open>dl_sync_dir\<close>: the check and creation of the local directory.
  \<open>Inl\<close> is the early \<open>return FALSE\<close>, \<open>Inr\<close> the fall-through to the loop over the children.
\<close>

definition dl_sync_dir_local :: "env \<Rightarrow> string \<Rightarrow> world \<Rightarrow> world + world" where
  "dl_sync_dir_local E file w =
     (let local_path = file in
      if \<not> g_file_query_exists (fs w) file then
        (let w1 = (if \<not> opt_noprogress w then g_print (Out_D local_path) w else w) in
         case g_file_make_directory E file w1 of
           (Some local_err, w2) \<Rightarrow>
             Inl (g_printerr (Err_cant_create_dir local_path (message local_err)) w2)
         | (None, w2) \<Rightarrow> Inr w2)
      else if g_file_query_file_type (fs w) file \<noteq> G_FILE_TYPE_DIRECTORY
      then Inl (g_printerr (Err_cant_create_dir_file_exists local_path) w)
      else Inr w)"

text \<open>
  \<open>dl_sync_dir\<close> and its loop over the children; \<open>status\<close> is the loop's flag.
\<close>

fun dl_sync_dir :: "env \<Rightarrow> mega_node \<Rightarrow> string \<Rightarrow> string \<Rightarrow> world \<Rightarrow> bool \<times> world"
  and dl_sync_children ::
    "env \<Rightarrow> mega_node list \<Rightarrow> string \<Rightarrow> string \<Rightarrow> bool \<Rightarrow> world \<Rightarrow> bool \<times> world" where
  "dl_sync_dir E (Node nm ty cs) file remote_path w =
     (case dl_sync_dir_local E file w of
        Inl w1 \<Rightarrow> (False, w1)
      | Inr w1 \<Rightarrow> dl_sync_children E cs file remote_path True w1)"
| "dl_sync_children E [] file remote_path status w = (status, w)"
| "dl_sync_children E (child # rest) file remote_path status w =
     (let child_remote_path = remote_path @ ''/'' @ name child;
          child_file = g_file_get_child file (name child);
          (ok, w1) = (if type child = 0
                      then dl_sync_file E child child_file child_remote_path w
                      else dl_sync_dir E child child_file child_remote_path w)
      in dl_sync_children E rest file remote_path (if \<not> ok then False else status) w1)"

section \<open>Link parsers\<close>

subsection \<open>UTF-8\<close>

text \<open>
  The patterns are compiled without \<open>G_REGEX_RAW\<close>, so GLib hands the subject to the
  matcher as UTF-8 text: a pattern item is matched against characters, each of one to
  four bytes. A character of the subject is kept as its code point together with the bytes
  that encode it. \<open>utf8_decode\<close> reads a byte string as UTF-8 (shortest encodings only,
  no surrogates, nothing above U+10FFFF); it returns \<open>None\<close> on bytes that are not UTF-8.
\<close>

type_synonym uchar = "nat \<times> string"

definition utf8_tail :: "char \<Rightarrow> bool" where
  "utf8_tail c = ((128::nat) \<le> of_char c \<and> (of_char c :: nat) < 192)"

fun utf8_decode :: "string \<Rightarrow> uchar list option" where
  "utf8_decode [] = Some []"
| "utf8_decode (b # s) =
     (if (of_char b :: nat) < 128
      then map_option ((#) (of_char b, [b])) (utf8_decode s)
      else if (194::nat) \<le> of_char b \<and> (of_char b :: nat) < 224
      then (case s of
              c1 # r \<Rightarrow>
                if utf8_tail c1
                then map_option ((#) ((of_char b - 192) * 64 + (of_char c1 - 128), [b, c1]))
                       (utf8_decode r)
                else None
            | _ \<Rightarrow> None)
      else if (224::nat) \<le> of_char b \<and> (of_char b :: nat) < 240
      then (case s of
              c1 # c2 # r \<Rightarrow>
                (let cp = (of_char b - 224) * 4096 + (of_char c1 - 128) * 64 + (of_char c2 - 128)
                 in if utf8_tail c1 \<and> utf8_tail c2 \<and> 2048 \<le> cp \<and> \<not> (55296 \<le> cp \<and> cp < 57344)
                    then map_option ((#) (cp, [b, c1, c2])) (utf8_decode r)
                    else None)
            | _ \<Rightarrow> None)
      else if (240::nat) \<le> of_char b \<and> (of_char b :: nat) < 245
      then (case s of
              c1 # c2 # c3 # r \<Rightarrow>
                (let cp = (of_char b - 240) * 262144 + (of_char c1 - 128) * 4096
                          + (of_char c2 - 128) * 64 + (of_char c3 - 128)
                 in if utf8_tail c1 \<and> utf8_tail c2 \<and> utf8_tail c3 \<and> 65536 \<le> cp \<and> cp < 1114112
                    then map_option ((#) (cp, [b, c1, c2, c3])) (utf8_decode r)
                    else None)
            | _ \<Rightarrow> None)
      else None)"

definition valid_utf8 :: "string \<Rightarrow> bool" where
  "valid_utf8 s = (utf8_decode s \<noteq> None)"

subsection \<open>Matching\<close>

text \<open>
  The two patterns of \<open>main\<close> use few constructs of the regular expression language:
  the anchors, literal text, an optional literal, and a capturing group that repeats a
  character class a fixed number of times. A character class is a list of ranges.

  Matching follows PCRE as GLib configures it for these patterns. The search is
  unanchored and \<open>^\<close> holds at the start of the subject only. No \<open>G_REGEX_NEWLINE\<close> flag
  is given, so every Unicode line ending is a newline: line feed, vertical tab, form
  feed, carriage return, carriage return with line feed, U+0085, U+2028 and U+2029; and
  \<open>$\<close> (without \<open>G_REGEX_DOLLAR_ENDONLY\<close>) holds at the end of the subject and also
  just before a newline that ends the subject. With \<open>G_REGEX_CASELESS\<close> a character of
  the pattern matches every character of its Unicode case-equivalence class.
  \<open>g_regex_match\<close> requires the subject to be valid UTF-8; a subject that is not is
  outside its contract and matches nothing here.
\<close>

datatype rx =
    Bol
  | Eol
  | Lit string
  | Opt string
  | Cap "(char \<times> char) list" nat

record GRegex =
  pattern :: "rx list"
  caseless :: bool

text \<open>
  The case-equivalence class of a character, as far as matching text written in ASCII
  needs it: outside ASCII only U+017F (long s) and U+212A (Kelvin sign) are
  case-equivalent to an ASCII character.
\<close>

definition case_variants :: "nat \<Rightarrow> nat list" where
  "case_variants cp =
     (if 65 \<le> cp \<and> cp \<le> 90
      then [cp, cp + 32] @ (if cp = 75 then [0x212A] else if cp = 83 then [0x17F] else [])
      else if 97 \<le> cp \<and> cp \<le> 122
      then [cp, cp - 32] @ (if cp = 107 then [0x212A] else if cp = 115 then [0x17F] else [])
      else if cp = 0x17F then [0x17F, 115, 83]
      else if cp = 0x212A then [0x212A, 107, 75]
      else [cp])"

definition lit_char :: "bool \<Rightarrow> char \<Rightarrow> nat \<Rightarrow> bool" where
  "lit_char cl p cp = (if cl then of_char p \<in> set (case_variants cp) else cp = of_char p)"

definition in_class :: "bool \<Rightarrow> (char \<times> char) list \<Rightarrow> nat \<Rightarrow> bool" where
  "in_class cl ranges cp =
     list_ex (\<lambda>v. list_ex (\<lambda>(lo, hi). (of_char lo :: nat) \<le> v \<and> v \<le> (of_char hi :: nat)) ranges)
       (if cl then case_variants cp else [cp])"

definition lit_at :: "bool \<Rightarrow> string \<Rightarrow> uchar list \<Rightarrow> bool" where
  "lit_at cl l s =
     (length l \<le> length s \<and> list_all2 (lit_char cl) l (map fst (take (length l) s)))"

definition is_newline :: "nat list \<Rightarrow> bool" where
  "is_newline cps =
     (cps \<in> set [[0x0A], [0x0B], [0x0C], [0x0D], [0x0D, 0x0A], [0x85], [0x2028], [0x2029]])"

text \<open>
  \<open>rx_run\<close> matches a pattern at the current position: \<open>pos\<close> is the offset of the rest
  \<open>s\<close> of the subject, \<open>caps\<close> the groups captured so far, each the bytes of the
  characters it matched. An optional literal is tried first with the literal and then
  without.
\<close>

fun rx_run :: "bool \<Rightarrow> rx list \<Rightarrow> nat \<Rightarrow> uchar list \<Rightarrow> string list \<Rightarrow> string list option" where
  "rx_run cl [] pos s caps = Some caps"
| "rx_run cl (Bol # r) pos s caps = (if pos = 0 then rx_run cl r pos s caps else None)"
| "rx_run cl (Eol # r) pos s caps =
     (if s = [] \<or> is_newline (map fst s) then rx_run cl r pos s caps else None)"
| "rx_run cl (Lit l # r) pos s caps =
     (if lit_at cl l s then rx_run cl r (pos + length l) (drop (length l) s) caps else None)"
| "rx_run cl (Opt l # r) pos s caps =
     (case (if lit_at cl l s then rx_run cl r (pos + length l) (drop (length l) s) caps else None) of
        Some m \<Rightarrow> Some m
      | None \<Rightarrow> rx_run cl r pos s caps)"
| "rx_run cl (Cap ranges n # r) pos s caps =
     (if n \<le> length s \<and> list_all (\<lambda>c. in_class cl ranges (fst c)) (take n s)
      then rx_run cl r (pos + n) (drop n s) (caps @ [concat (map snd (take n s))]) else None)"

fun rx_search :: "bool \<Rightarrow> rx list \<Rightarrow> nat \<Rightarrow> uchar list \<Rightarrow> string list option" where
  "rx_search cl p pos s =
     (case rx_run cl p pos s [] of
        Some m \<Rightarrow> Some m
      | None \<Rightarrow> (case s of [] \<Rightarrow> None | c # t \<Rightarrow> rx_search cl p (Suc pos) t))"

text \<open>\<open>g_regex_match\<close> returns the match information (the captured groups) when the subject matches.\<close>

definition g_regex_match :: "GRegex \<Rightarrow> string \<Rightarrow> string list option" where
  "g_regex_match regex subject =
     (case utf8_decode subject of
        None \<Rightarrow> None
      | Some s \<Rightarrow> rx_search (caseless regex) (pattern regex) 0 s)"

definition g_match_info_fetch :: "string list \<Rightarrow> nat \<Rightarrow> string" where
  "g_match_info_fetch m n = (if 1 \<le> n \<and> n \<le> length m then m ! (n - 1) else [])"

definition token_class :: "(char \<times> char) list" where
  "token_class = [(CHR ''a'', CHR ''z''), (CHR ''0'', CHR ''9''), (CHR ''_'', CHR ''_''), (CHR ''-'', CHR ''-'')]"

definition file_regex :: GRegex where
  "file_regex =
     \<lparr>pattern = [Bol, Lit ''http'', Opt ''s'', Lit ''://mega'', Opt ''.co'', Lit ''.nz/#!'',
                 Cap token_class 8, Lit ''!'', Cap token_class 43, Eol],
      caseless = True\<rparr>"

definition folder_regex :: GRegex where
  "folder_regex =
     \<lparr>pattern = [Bol, Lit ''http'', Opt ''s'', Lit ''://mega'', Opt ''.co'', Lit ''.nz/#F!'',
                 Cap token_class 8, Lit ''!'', Cap token_class 22, Eol],
      caseless = True\<rparr>"

text \<open>
  The classification \<open>main\<close> performs on each link: the file pattern first, then the
  folder pattern; the handle and the key are groups 1 and 2 of the match.
\<close>

datatype reference = FileRef string string | FolderRef string string | Invalid

definition classify :: "string \<Rightarrow> reference" where
  "classify link =
     (case g_regex_match file_regex link of
        Some m1 \<Rightarrow> FileRef (g_match_info_fetch m1 1) (g_match_info_fetch m1 2)
      | None \<Rightarrow>
          (case g_regex_match folder_regex link of
             Some m2 \<Rightarrow> FolderRef (g_match_info_fetch m2 1) (g_match_info_fetch m2 2)
           | None \<Rightarrow> Invalid))"

section \<open>Entry point\<close>

text \<open>
  Modelled from the spec: \<open>mega_session_dl\<close>, \<open>mega_session_open_exp_folder\<close> and
  \<open>mega_session_ls\<close> (lib/mega.c is not among the sources). \<open>mega_session_dl\<close> is the
  top-level fetch from a handle and a key: it delivers status events while it runs; on
  success with a destination, the object is created at the destination, or inside it
  under the resolved name when the destination is a directory; without a destination the
  data only reaches the status callback.
\<close>

definition dl_created :: "string option \<Rightarrow> world \<Rightarrow> world" where
  "dl_created local_path w =
     (case local_path of
        None \<Rightarrow> w
      | Some p \<Rightarrow>
          if fs w p = Some G_FILE_TYPE_DIRECTORY
          then (case cur_file w of
                  None \<Rightarrow> w
                | Some n \<Rightarrow> w\<lparr>fs := (fs w)(g_file_get_child p n \<mapsto> G_FILE_TYPE_REGULAR)\<rparr>)
          else w\<lparr>fs := (fs w)(p \<mapsto> G_FILE_TYPE_REGULAR)\<rparr>)"

definition mega_session_dl ::
  "env \<Rightarrow> string \<Rightarrow> string \<Rightarrow> string option \<Rightarrow> world \<Rightarrow> GError option \<times> world" where
  "mega_session_dl E handle key local_path w =
     (let r = dl_reply E (ncalls w) handle key local_path;
          w1 = emit (SessionDl handle key local_path) (w\<lparr>ncalls := Suc (ncalls w)\<rparr>);
          w2 = deliver (status_events r) w1
      in case failure r of
           None \<Rightarrow> (None, dl_created local_path w2)
         | Some e \<Rightarrow> (Some e, if leaves_partial r then dl_created local_path w2 else w2))"

definition mega_session_open_exp_folder ::
  "env \<Rightarrow> string \<Rightarrow> string \<Rightarrow> world \<Rightarrow> GError option \<times> world" where
  "mega_session_open_exp_folder E handle key w =
     (open_exp_folder_reply E (ncalls w) handle key,
      emit (SessionOpenExpFolder handle key) (w\<lparr>ncalls := Suc (ncalls w)\<rparr>))"

definition mega_session_ls :: "env \<Rightarrow> string \<Rightarrow> world \<Rightarrow> mega_node list \<times> world" where
  "mega_session_ls E path w =
     (ls_reply E (ncalls w) path, emit (SessionLs path) (w\<lparr>ncalls := Suc (ncalls w)\<rparr>))"

text \<open>
  Modelled from the spec: \<open>tool_start_session\<close>, \<open>tool_fini\<close> and \<open>tool_convert_filename\<close>
  (tools.c is not among the sources). Without the flag that opens it, the session is
  only created; the links are taken as they are given.
\<close>

definition tool_start_session :: "world \<Rightarrow> world" where
  "tool_start_session = emit StartSession"

definition mega_session_watch_status :: "world \<Rightarrow> world" where
  "mega_session_watch_status = emit WatchStatus"

definition tool_fini :: "world \<Rightarrow> world" where
  "tool_fini = emit ToolFini"

definition tool_convert_filename :: "string \<Rightarrow> string" where
  "tool_convert_filename a = a"

text \<open>The retry loop of \<open>main\<close> for a file link; \<open>status\<close> is the exit status of \<open>main\<close>.\<close>

function main_dl_loop ::
  "env \<Rightarrow> string \<Rightarrow> string \<Rightarrow> string \<Rightarrow> int \<Rightarrow> 64 word \<Rightarrow> int \<Rightarrow> world \<Rightarrow> int \<times> world" where
  "main_dl_loop E link handle key attempts sleep_amt status w =
     (if attempts < 5 then
        (let (sleep_amt1, w1) =
               (if attempts > 0
                then (push_bit 1 sleep_amt,
                      g_usleep sleep_amt
                        (g_print (Out_attempt_failed attempts (sint sleep_amt sdiv 1000000)) w))
                else (sleep_amt, w))
         in case mega_session_dl E handle key
                   (if opt_stream w1 then None else Some (opt_path w1)) w1 of
              (Some local_err, w2) \<Rightarrow>
                (let w3 = (if \<not> opt_noprogress w2 then g_print Out_clreol_nl w2 else w2);
                     w4 = g_printerr (Err_download_failed_link link (message local_err)) w3
                 in if g_error_matches local_err MEGA_ERROR MEGA_ERROR_OTHER
                    then (1, w4)
                    else main_dl_loop E link handle key (attempts + 1) sleep_amt1 1 w4)
            | (None, w2) \<Rightarrow>
                (let w3 = (if \<not> opt_noprogress w2 then g_print (Out_downloaded (cur_file w2)) w2 else w2);
                     w4 = (if opt_print_names w3 then g_print (Out_name (cur_file w3)) w3 else w3)
                 in (0, w4)))
      else (status, w))"
  by pat_completeness auto
termination
  by (relation "measure (\<lambda>(E, l, h, k, attempts, sl, st, w). nat (5 - attempts))") auto

text \<open>The folder branch of \<open>main\<close>, after the check for stream mode.\<close>

definition main_folder :: "env \<Rightarrow> string \<Rightarrow> string \<Rightarrow> string \<Rightarrow> int \<Rightarrow> world \<Rightarrow> int \<times> world" where
  "main_folder E link handle key status w =
     (case mega_session_open_exp_folder E handle key w of
        (Some local_err, w1) \<Rightarrow>
          (1, g_printerr (Err_cant_open_folder link (message local_err)) w1)
      | (None, w1) \<Rightarrow>
          (let w2 = mega_session_watch_status w1 in
           case mega_session_ls E ''/'' w2 of
             ([root_node], w3) \<Rightarrow>
               (let local_dir = opt_path w3 in
                if g_file_query_file_type (fs w3) local_dir = G_FILE_TYPE_DIRECTORY
                then (let node_path = mega_node_get_path_dup E root_node in
                      case dl_sync_dir E root_node local_dir node_path w3 of
                        (ok, w4) \<Rightarrow> (if \<not> ok then 1 else status, w4))
                else (1, g_printerr (Err_must_be_directory (opt_path w3)) w3))
           | (l, w3) \<Rightarrow> (1, g_printerr Err_multiple_toplevel w3)))"

text \<open>
  The loop of \<open>main\<close> over the links. The early \<open>return 1\<close> for a folder link in stream
  mode leaves the loop; otherwise the loop ends with \<open>tool_fini\<close> and the status.
\<close>

fun main_links :: "env \<Rightarrow> string list \<Rightarrow> int \<Rightarrow> world \<Rightarrow> int \<times> world" where
  "main_links E [] status w = (status, tool_fini w)"
| "main_links E (a # rest) status w =
     (let link = tool_convert_filename a in
      case g_regex_match file_regex link of
        Some m1 \<Rightarrow>
          (let handle = g_match_info_fetch m1 1;
               key = g_match_info_fetch m1 2
           in case main_dl_loop E link handle key 0 2000000 status w of
                (status1, w1) \<Rightarrow> main_links E rest status1 w1)
      | None \<Rightarrow>
          (case g_regex_match folder_regex link of
             Some m2 \<Rightarrow>
               if opt_stream w
               then (1, tool_fini (g_printerr Err_stream_directory w))
               else
                 (let handle = g_match_info_fetch m2 1;
                      key = g_match_info_fetch m2 2
                  in case main_folder E link handle key status w of
                       (status1, w1) \<Rightarrow> main_links E rest status1 w1)
           | None \<Rightarrow> main_links E rest status (g_printerr (Warn_invalid_link link) w)))"

text \<open>
  \<open>main\<close> after \<open>tool_init\<close> has parsed the options into the static variables: \<open>av\<close> holds
  the program name and the links.
\<close>

definition main :: "env \<Rightarrow> string list \<Rightarrow> world \<Rightarrow> int \<times> world" where
  "main E av w0 =
     (let ac = int (length av);
          w = (if opt_path w0 = ''-'' then w0\<lparr>opt_stream := True, opt_noprogress := True\<rparr> else w0)
      in if ac < 2 then (1, tool_fini (g_printerr Err_no_links w))
         else if opt_stream w \<and> ac \<noteq> 2 then (1, tool_fini (g_printerr Err_stream_multiple w))
         else main_links E (tl av) 0 (mega_session_watch_status (tool_start_session w)))"

section \<open>Vocabulary of the properties\<close>

text \<open>
  The actions of a run that wait or reach the remote side, in the order they happen.
\<close>

fun is_action :: "event \<Rightarrow> bool" where
  "is_action (Usleep t) = True"
| "is_action (SessionGet l r) = True"
| "is_action (SessionDl h k p) = True"
| "is_action (SessionOpenExpFolder h k) = True"
| "is_action e = False"

definition actions :: "event list \<Rightarrow> event list" where
  "actions tr = filter is_action tr"

text \<open>
  The split both retry loops make on the error of a failed fetch: an error that matches
  \<open>MEGA_ERROR_OTHER\<close> in the domain \<open>MEGA_ERROR\<close> ends the loop (permanent), any other
  error is retried (transient).
\<close>

definition transient_failure :: "reply \<Rightarrow> bool" where
  "transient_failure r =
     (case failure r of None \<Rightarrow> False
      | Some e \<Rightarrow> \<not> g_error_matches e MEGA_ERROR MEGA_ERROR_OTHER)"

definition permanent_failure :: "reply \<Rightarrow> bool" where
  "permanent_failure r =
     (case failure r of None \<Rightarrow> False
      | Some e \<Rightarrow> g_error_matches e MEGA_ERROR MEGA_ERROR_OTHER)"

text \<open>The destination \<open>main\<close> passes to \<open>mega_session_dl\<close>.\<close>

definition dl_destination :: "world \<Rightarrow> string option" where
  "dl_destination w = (if opt_stream w then None else Some (opt_path w))"

text \<open>
  The waits and fetches of a retry loop whose every attempt fails with a transient error,
  from the state with \<open>a\<close> failed attempts and the wait \<open>sl\<close>; \<open>f\<close> is the fetch.
\<close>

function retry_schedule :: "event \<Rightarrow> int \<Rightarrow> 64 word \<Rightarrow> event list" where
  "retry_schedule f a sl =
     (if a < 5
      then (if a > 0 then [Usleep sl, f] @ retry_schedule f (a + 1) (push_bit 1 sl)
            else [f] @ retry_schedule f (a + 1) sl)
      else [])"
  by pat_completeness auto
termination
  by (relation "measure (\<lambda>(f, a, sl). nat (5 - a))") auto

text \<open>The session operations that reach the remote side or read what it sent.\<close>

fun is_network_call :: "event \<Rightarrow> bool" where
  "is_network_call (SessionGet l r) = True"
| "is_network_call (SessionDl h k p) = True"
| "is_network_call (SessionOpenExpFolder h k) = True"
| "is_network_call (SessionLs p) = True"
| "is_network_call e = False"

text \<open>The name carried by the last \<open>FileInfo\<close> event of a sequence of status events, if any.\<close>

fun last_fileinfo :: "mega_status_data list \<Rightarrow> string option" where
  "last_fileinfo [] = None"
| "last_fileinfo (d # ds) =
     (case last_fileinfo ds of
        Some n \<Rightarrow> Some n
      | None \<Rightarrow> (if is_MEGA_STATUS_FILEINFO d then Some (fileinfo_name d) else None))"

text \<open>
  The state after the folder branch of \<open>main\<close> has opened the folder, subscribed again and
  listed the top level.
\<close>

definition folder_opened :: "string \<Rightarrow> string \<Rightarrow> world \<Rightarrow> world" where
  "folder_opened handle key w =
     w\<lparr>ncalls := ncalls w + 2,
       trace := trace w @ [SessionOpenExpFolder handle key, WatchStatus, SessionLs ''/'']\<rparr>"

text \<open>
  The body of the loop of \<open>dl_sync_dir\<close> for one child, and the walk as the spec words it:
  every child is visited in the order of the session, each with its own step, and the
  results of the steps are collected.
\<close>

definition child_step :: "env \<Rightarrow> string \<Rightarrow> string \<Rightarrow> mega_node \<Rightarrow> world \<Rightarrow> bool \<times> world" where
  "child_step E file remote_path child w =
     (if type child = 0
      then dl_sync_file E child (g_file_get_child file (name child))
             (remote_path @ ''/'' @ name child) w
      else dl_sync_dir E child (g_file_get_child file (name child))
             (remote_path @ ''/'' @ name child) w)"

fun visit_all :: "env \<Rightarrow> string \<Rightarrow> string \<Rightarrow> mega_node list \<Rightarrow> world \<Rightarrow> bool list \<times> world" where
  "visit_all E file remote_path [] w = ([], w)"
| "visit_all E file remote_path (c # cs) w =
     (case child_step E file remote_path c w of
        (r, w1) \<Rightarrow>
          (case visit_all E file remote_path cs w1 of (rs, w2) \<Rightarrow> (r # rs, w2)))"

text \<open>
  The leaf files below a directory: the local path and the remote path of every node of
  type 0 that the walk from the children \<open>cs\<close> of a directory at \<open>file\<close> and
  \<open>remote_path\<close> reaches; and the local paths of the directories among these nodes.
\<close>

fun leaf_files :: "string \<Rightarrow> string \<Rightarrow> mega_node \<Rightarrow> (string \<times> string) list"
  and leaf_files_children :: "string \<Rightarrow> string \<Rightarrow> mega_node list \<Rightarrow> (string \<times> string) list" where
  "leaf_files file remote_path (Node nm ty cs) =
     (if ty = 0 then [(file, remote_path)] else leaf_files_children file remote_path cs)"
| "leaf_files_children file remote_path [] = []"
| "leaf_files_children file remote_path (c # cs) =
     leaf_files (g_file_get_child file (name c)) (remote_path @ ''/'' @ name c) c
       @ leaf_files_children file remote_path cs"

fun dir_files :: "string \<Rightarrow> mega_node \<Rightarrow> string list"
  and dir_files_children :: "string \<Rightarrow> mega_node list \<Rightarrow> string list" where
  "dir_files file (Node nm ty cs) = (if ty = 0 then [] else file # dir_files_children file cs)"
| "dir_files_children file [] = []"
| "dir_files_children file (c # cs) =
     dir_files (g_file_get_child file (name c)) c @ dir_files_children file cs"

text \<open>
  Names as a file system has them: a name is a single component of a path (not empty,
  not \<open>.\<close> or \<open>..\<close>, without the separator), and the children of a directory have
  different names.
\<close>

definition proper_name :: "string \<Rightarrow> bool" where
  "proper_name nm = (nm \<noteq> [] \<and> nm \<noteq> ''.'' \<and> nm \<noteq> ''..'' \<and> CHR ''/'' \<notin> set nm)"

fun well_named :: "mega_node list \<Rightarrow> bool"
  and well_named_node :: "mega_node \<Rightarrow> bool" where
  "well_named [] = True"
| "well_named (c # cs) =
     (proper_name (name c) \<and> name c \<notin> set (map name cs) \<and> well_named_node c \<and> well_named cs)"
| "well_named_node (Node nm ty cs) = (ty = 0 \<or> well_named cs)"

text \<open>
  The path of a \<open>GFile\<close>: the root, or a separator and a name for each directory on the
  way and for the file itself.
\<close>

definition canonical_path :: "string \<Rightarrow> bool" where
  "canonical_path p =
     (p = ''/'' \<or>
      (case path_components p of
         [] \<Rightarrow> False
       | c # cs \<Rightarrow> c = [] \<and> cs \<noteq> [] \<and> list_all proper_name cs))"

text \<open>A path strictly below another, and a path at or below another.\<close>

definition as_dir :: "string \<Rightarrow> string" where
  "as_dir p = (if p \<noteq> [] \<and> last p = CHR ''/'' then p else p @ ''/'')"

definition under :: "string \<Rightarrow> string \<Rightarrow> bool" where
  "under p q = (\<exists>s. s \<noteq> [] \<and> q = as_dir p @ s)"

definition at_or_under :: "string \<Rightarrow> string \<Rightarrow> bool" where
  "at_or_under p q = (q = p \<or> under p q)"

text \<open>
  The outcome of a walk over the leaves \<open>L\<close> and the directories \<open>D\<close> when exactly the
  fetches of the remote path \<open>bad\<close> fail: the walk succeeds when \<open>bad\<close> is not among the
  leaves, every other leaf is a regular file afterwards, every directory is a directory
  afterwards, and nothing changed outside the given region.
\<close>

definition synced ::
  "string \<Rightarrow> (string \<times> string) list \<Rightarrow> string list \<Rightarrow> (string \<Rightarrow> bool) \<Rightarrow> world
     \<Rightarrow> bool \<times> world \<Rightarrow> bool" where
  "synced bad L D region w res =
     (fst res = (bad \<notin> snd ` set L)
      \<and> (\<forall>lp rp. (lp, rp) \<in> set L \<and> rp \<noteq> bad \<longrightarrow> fs (snd res) lp = Some G_FILE_TYPE_REGULAR)
      \<and> (\<forall>d. d \<in> set D \<longrightarrow> fs (snd res) d = Some G_FILE_TYPE_DIRECTORY)
      \<and> (\<forall>q. \<not> region q \<longrightarrow> fs (snd res) q = fs w q))"

definition fetches_fail_only_at :: "env \<Rightarrow> string \<Rightarrow> bool" where
  "fetches_fail_only_at E bad =
     ((\<forall>p. make_directory_error E p = None)
      \<and> (\<forall>n lp rp. rp \<noteq> bad \<longrightarrow> failure (get_reply E n lp rp) = None)
      \<and> (\<forall>n lp. failure (get_reply E n lp bad) \<noteq> None))"

text \<open>
  The conjunction of the results of the steps of all children, with the state the walk
  leaves.
\<close>

definition all_steps :: "env \<Rightarrow> string \<Rightarrow> string \<Rightarrow> mega_node list \<Rightarrow> world \<Rightarrow> bool \<times> world" where
  "all_steps E file remote_path cs w =
     (list_all id (fst (visit_all E file remote_path cs w)),
      snd (visit_all E file remote_path cs w))"

text \<open>
  The grammar of the links as the spec words it. The alphabet of handles and keys is
  \<open>[A-Za-z0-9_-]\<close>. A reference string is a scheme (\<open>http\<close> or \<open>https\<close>), \<open>://\<close>, a host
  (\<open>mega.nz\<close> or \<open>mega.co.nz\<close>), \<open>/#\<close>, the marker (\<open>!\<close> for a file, \<open>F!\<close> for a folder), a
  handle of 8 characters, \<open>!\<close> and a key (43 characters for a file, 22 for a folder);
  the letters before the handle are taken in either case.
\<close>

definition ascii_tolower :: "char \<Rightarrow> char" where
  "ascii_tolower c =
     (if (65::nat) \<le> of_char c \<and> of_char c \<le> (90::nat) then char_of (of_char c + (32::nat)) else c)"

definition in_alphabet :: "char \<Rightarrow> bool" where
  "in_alphabet c =
     (((65::nat) \<le> of_char c \<and> of_char c \<le> (90::nat))
      \<or> ((97::nat) \<le> of_char c \<and> of_char c \<le> (122::nat))
      \<or> ((48::nat) \<le> of_char c \<and> of_char c \<le> (57::nat))
      \<or> c = CHR ''_'' \<or> c = CHR ''-'')"

definition link_prefixes :: "string \<Rightarrow> string list" where
  "link_prefixes marker =
     [''http://mega.nz/#'' @ marker, ''https://mega.nz/#'' @ marker,
      ''http://mega.co.nz/#'' @ marker, ''https://mega.co.nz/#'' @ marker]"

definition ref_string :: "string \<Rightarrow> nat \<Rightarrow> string \<Rightarrow> string \<Rightarrow> string \<Rightarrow> bool" where
  "ref_string marker n s h k =
     (\<exists>p. s = p @ h @ ''!'' @ k
          \<and> map ascii_tolower p \<in> set (link_prefixes marker)
          \<and> length h = 8 \<and> length k = n
          \<and> list_all in_alphabet h \<and> list_all in_alphabet k)"

definition file_ref_string :: "string \<Rightarrow> string \<Rightarrow> string \<Rightarrow> bool" where
  "file_ref_string = ref_string ''!'' 43"

definition folder_ref_string :: "string \<Rightarrow> string \<Rightarrow> string \<Rightarrow> bool" where
  "folder_ref_string = ref_string ''f!'' 22"

text \<open>
  The strings the two patterns accept. They are read as UTF-8 text. A character of a
  handle or a key is a character of the alphabet \<open>[A-Za-z0-9_-]\<close>, or one of the two
  characters outside ASCII that are case-equivalent to a letter: U+017F (long s) and
  U+212A (Kelvin sign). A letter before the handle is taken in either case, and U+017F
  is taken for the \<open>s\<close> of the scheme. After the key there may be one line ending: line
  feed, vertical tab, form feed, carriage return, carriage return with line feed,
  U+0085, U+2028 or U+2029.
\<close>

definition alphabet_char :: "nat \<Rightarrow> bool" where
  "alphabet_char cp =
     ((65 \<le> cp \<and> cp \<le> 90) \<or> (97 \<le> cp \<and> cp \<le> 122) \<or> (48 \<le> cp \<and> cp \<le> 57)
      \<or> cp = 95 \<or> cp = 45 \<or> cp = 0x17F \<or> cp = 0x212A)"

definition token :: "nat \<Rightarrow> string \<Rightarrow> bool" where
  "token n t =
     (case utf8_decode t of
        None \<Rightarrow> False
      | Some cs \<Rightarrow> length cs = n \<and> list_all (\<lambda>c. alphabet_char (fst c)) cs)"

definition fold_letter :: "nat \<Rightarrow> nat" where
  "fold_letter cp =
     (if 65 \<le> cp \<and> cp \<le> 90 then cp + 32
      else if cp = 0x17F then 115
      else if cp = 0x212A then 107
      else cp)"

definition link_prefix :: "string \<Rightarrow> string \<Rightarrow> bool" where
  "link_prefix marker p =
     (case utf8_decode p of
        None \<Rightarrow> False
      | Some cs \<Rightarrow> map (\<lambda>c. fold_letter (fst c)) cs \<in> set (map (map of_char) (link_prefixes marker)))"

definition line_endings :: "nat list list" where
  "line_endings = [[], [0x0A], [0x0B], [0x0C], [0x0D], [0x0D, 0x0A], [0x85], [0x2028], [0x2029]]"

definition line_end :: "string \<Rightarrow> bool" where
  "line_end nl =
     (case utf8_decode nl of
        None \<Rightarrow> False
      | Some cs \<Rightarrow> map fst cs \<in> set line_endings)"

definition accepted_link :: "string \<Rightarrow> nat \<Rightarrow> string \<Rightarrow> string \<Rightarrow> string \<Rightarrow> bool" where
  "accepted_link marker n s h k =
     (\<exists>p nl. s = p @ h @ ''!'' @ k @ nl
             \<and> link_prefix marker p \<and> token 8 h \<and> token n k \<and> line_end nl)"

text \<open>
  A string with the ASCII letters at some positions upper-cased, and two strings that
  differ in the case of ASCII letters only.
\<close>

definition ascii_toupper :: "char \<Rightarrow> char" where
  "ascii_toupper c =
     (if (97::nat) \<le> of_char c \<and> of_char c \<le> (122::nat) then char_of (of_char c - (32::nat)) else c)"

fun upcase_from :: "nat list \<Rightarrow> nat \<Rightarrow> string \<Rightarrow> string" where
  "upcase_from I i [] = []"
| "upcase_from I i (c # cs) = (if i \<in> set I then ascii_toupper c else c) # upcase_from I (Suc i) cs"

definition upcase_some :: "nat list \<Rightarrow> string \<Rightarrow> string" where
  "upcase_some I s = upcase_from I 0 s"

definition same_up_to_case :: "string \<Rightarrow> string \<Rightarrow> bool" where
  "same_up_to_case s t = (map ascii_tolower s = map ascii_tolower t)"

text \<open>Two characters of a subject that differ in the case of an ASCII letter at most.\<close>

definition char_rel :: "uchar \<Rightarrow> uchar \<Rightarrow> bool" where
  "char_rel c c' =
     (fold_letter (fst c) = fold_letter (fst c')
      \<and> map ascii_tolower (snd c) = map ascii_tolower (snd c'))"

text \<open>The pattern of both links, with the marker and the length of the key left open.\<close>

definition link_pattern :: "string \<Rightarrow> nat \<Rightarrow> rx list" where
  "link_pattern marker n =
     [Bol, Lit ''http'', Opt ''s'', Lit ''://mega'', Opt ''.co'', Lit (''.nz/#'' @ marker),
      Cap token_class 8, Lit ''!'', Cap token_class n, Eol]"

section \<open>Example environments\<close>

definition http_error :: GError where
  "http_error = \<lparr>domain = HTTP_ERROR, code = 1, message = ''Server returned 509''\<rparr>"

definition other_error :: GError where
  "other_error = \<lparr>domain = MEGA_ERROR, code = MEGA_ERROR_OTHER, message = ''File not found''\<rparr>"

definition reply_fail :: "GError \<Rightarrow> reply" where
  "reply_fail e = \<lparr>failure = Some e, status_events = [], leaves_partial = False\<rparr>"

definition reply_ok :: "string \<Rightarrow> reply" where
  "reply_ok nm =
     \<lparr>failure = None,
      status_events = [MEGA_STATUS_FILEINFO nm, MEGA_STATUS_PROGRESS 1 1],
      leaves_partial = False\<rparr>"

text \<open>An environment in which every fetch fails with the given error.\<close>

definition env_fail :: "GError \<Rightarrow> env" where
  "env_fail e =
     \<lparr>get_reply = (\<lambda>n lp rp. reply_fail e),
      dl_reply = (\<lambda>n h k p. reply_fail e),
      open_exp_folder_reply = (\<lambda>n h k. None),
      ls_reply = (\<lambda>n p. []),
      mega_node_get_path_dup = (\<lambda>node. ''/'' @ name node),
      make_directory_error = (\<lambda>p. None)\<rparr>"

text \<open>The state at the start of \<open>main\<close>, with the default options and an empty current directory.\<close>

definition world0 :: world where
  "world0 =
     \<lparr>opt_path = ''.'', opt_stream = False, opt_noprogress = False, opt_print_names = False,
      cur_file = None, fs = [''.'' \<mapsto> G_FILE_TYPE_DIRECTORY], ncalls = 0, trace = []\<rparr>"

text \<open>
  An environment that serves the remote tree \<open>root\<close>: every fetch succeeds, except the
  fetch of the remote path \<open>bad\<close> and the download of the handle \<open>bad\<close>, which fail with
  a permanent error.
\<close>

definition env_tree :: "mega_node \<Rightarrow> string \<Rightarrow> env" where
  "env_tree root bad =
     \<lparr>get_reply = (\<lambda>n lp rp. if rp = bad then reply_fail other_error else reply_ok rp),
      dl_reply = (\<lambda>n h k p. if h = bad then reply_fail other_error else reply_ok ''b.bin''),
      open_exp_folder_reply = (\<lambda>n h k. None),
      ls_reply = (\<lambda>n p. [root]),
      mega_node_get_path_dup = (\<lambda>node. ''/'' @ name node),
      make_directory_error = (\<lambda>p. None)\<rparr>"

definition file_link_1 :: string where
  "file_link_1 = ''https://mega.nz/#!AAAAAAAA!0123456789012345678901234567890123456789_-z''"

definition file_link_2 :: string where
  "file_link_2 = ''https://mega.nz/#!BBBBBBBB!0123456789012345678901234567890123456789_-z''"

definition folder_link :: string where
  "folder_link = ''https://mega.nz/#F!CCCCCCCC!0123456789012345678_-z''"

definition lower_case_link :: string where
  "lower_case_link = ''https://mega.nz/#!abcdefgh!0123456789012345678901234567890123456789_-z''"

text \<open>
  A file link whose handle starts with U+212A (Kelvin sign), and a file link whose handle
  starts with U+0131 (dotless i), both in UTF-8.
\<close>

definition kelvin_link :: string where
  "kelvin_link =
     ''https://mega.nz/#!'' @ [CHR 0xE2, CHR 0x84, CHR 0xAA]
       @ ''AAAAAAA!0123456789012345678901234567890123456789_-z''"

definition dotless_i_link :: string where
  "dotless_i_link =
     ''https://mega.nz/#!'' @ [CHR 0xC4, CHR 0xB1]
       @ ''bcdefgh!0123456789012345678901234567890123456789_-z''"

section \<open>Basic facts about the state\<close>

declare dl_sync_file_loop.simps [simp del]

declare main_dl_loop.simps [simp del]

lemma emit_fields [simp]:
  "trace (emit e w) = trace w @ [e]"
  "fs (emit e w) = fs w"
  "ncalls (emit e w) = ncalls w"
  "cur_file (emit e w) = cur_file w"
  "opt_path (emit e w) = opt_path w"
  "opt_stream (emit e w) = opt_stream w"
  "opt_noprogress (emit e w) = opt_noprogress w"
  "opt_print_names (emit e w) = opt_print_names w"
  by (simp_all add: emit_def)

lemma actions_append [simp]: "actions (xs @ ys) = actions xs @ actions ys"
  by (simp add: actions_def)

lemma actions_Nil [simp]: "actions [] = []"
  by (simp add: actions_def)

lemma actions_Cons [simp]: "actions (e # es) = (if is_action e then e # actions es else actions es)"
  by (simp add: actions_def)

lemma status_callback_fields [simp]:
  "fs (status_callback d w) = fs w"
  "ncalls (status_callback d w) = ncalls w"
  "opt_path (status_callback d w) = opt_path w"
  "opt_stream (status_callback d w) = opt_stream w"
  "opt_noprogress (status_callback d w) = opt_noprogress w"
  "opt_print_names (status_callback d w) = opt_print_names w"
  "actions (trace (status_callback d w)) = actions (trace w)"
  by (simp_all add: status_callback_def Let_def)

lemma deliver_fields [simp]:
  "fs (deliver evs w) = fs w"
  "ncalls (deliver evs w) = ncalls w"
  "opt_path (deliver evs w) = opt_path w"
  "opt_stream (deliver evs w) = opt_stream w"
  "opt_noprogress (deliver evs w) = opt_noprogress w"
  "opt_print_names (deliver evs w) = opt_print_names w"
  "actions (trace (deliver evs w)) = actions (trace w)"
  unfolding deliver_def by (induction evs arbitrary: w; simp)+

lemma mega_session_get_fields:
  "fst (mega_session_get E lp rp w) = failure (get_reply E (ncalls w) lp rp)"
  "ncalls (snd (mega_session_get E lp rp w)) = Suc (ncalls w)"
  "opt_noprogress (snd (mega_session_get E lp rp w)) = opt_noprogress w"
  "opt_print_names (snd (mega_session_get E lp rp w)) = opt_print_names w"
  "opt_stream (snd (mega_session_get E lp rp w)) = opt_stream w"
  "opt_path (snd (mega_session_get E lp rp w)) = opt_path w"
  "actions (trace (snd (mega_session_get E lp rp w))) = actions (trace w) @ [SessionGet lp rp]"
  by (simp_all add: mega_session_get_def Let_def split: option.splits)


lemma mega_session_getD:
  assumes "mega_session_get E lp rp w = (x, w2)"
  shows "x = failure (get_reply E (ncalls w) lp rp)"
    and "ncalls w2 = Suc (ncalls w)"
    and "opt_noprogress w2 = opt_noprogress w"
    and "opt_print_names w2 = opt_print_names w"
    and "opt_stream w2 = opt_stream w"
    and "opt_path w2 = opt_path w"
    and "actions (trace w2) = actions (trace w) @ [SessionGet lp rp]"
  using assms mega_session_get_fields [of E lp rp w] by simp_all

lemma retry_schedule_0:
  "retry_schedule f 0 2000000 =
     [f, Usleep 2000000, f, Usleep 4000000, f, Usleep 8000000, f, Usleep 16000000, f]"
  by simp

lemma g_print_fields [simp]:
  "fs (g_print m w) = fs w"
  "ncalls (g_print m w) = ncalls w"
  "opt_noprogress (g_print m w) = opt_noprogress w"
  "opt_print_names (g_print m w) = opt_print_names w"
  "opt_stream (g_print m w) = opt_stream w"
  "opt_path (g_print m w) = opt_path w"
  "cur_file (g_print m w) = cur_file w"
  "trace (g_print m w) = trace w @ [Print m]"
  by (simp_all add: g_print_def)

lemma g_printerr_fields [simp]:
  "fs (g_printerr m w) = fs w"
  "ncalls (g_printerr m w) = ncalls w"
  "opt_noprogress (g_printerr m w) = opt_noprogress w"
  "opt_print_names (g_printerr m w) = opt_print_names w"
  "opt_stream (g_printerr m w) = opt_stream w"
  "opt_path (g_printerr m w) = opt_path w"
  "cur_file (g_printerr m w) = cur_file w"
  "trace (g_printerr m w) = trace w @ [PrintErr m]"
  by (simp_all add: g_printerr_def)

lemma g_usleep_fields [simp]:
  "fs (g_usleep t w) = fs w"
  "ncalls (g_usleep t w) = ncalls w"
  "opt_noprogress (g_usleep t w) = opt_noprogress w"
  "opt_print_names (g_usleep t w) = opt_print_names w"
  "opt_stream (g_usleep t w) = opt_stream w"
  "opt_path (g_usleep t w) = opt_path w"
  "cur_file (g_usleep t w) = cur_file w"
  "trace (g_usleep t w) = trace w @ [Usleep t]"
  by (simp_all add: g_usleep_def)

lemma dl_sync_file_loop_transient:
  assumes "k = nat (5 - attempts)" "0 \<le> attempts"
    and "\<forall>n. ncalls w \<le> n \<and> n < ncalls w + k \<longrightarrow> transient_failure (get_reply E n lp rp)"
    and "dl_sync_file_loop E lp rp attempts sl st w = (r, w')"
  shows "r = (if attempts < 5 then False else st)
       \<and> actions (trace w') = actions (trace w) @ retry_schedule (SessionGet lp rp) attempts sl"
  using assms
proof (induction k arbitrary: attempts sl st w)
  case 0
  then have "\<not> attempts < 5" by simp
  with "0.prems"(4) show ?case by (simp add: dl_sync_file_loop.simps)
next
  case (Suc k)
  then have lt: "attempts < 5" by simp
  define sl1 where "sl1 = (if attempts > 0 then push_bit 1 sl else sl)"
  define w1 where "w1 = (if attempts > 0
      then g_usleep sl (g_print (Out_attempt_failed attempts (sint sl sdiv 1000000)) w) else w)"
  obtain x w2 where g: "mega_session_get E lp rp w1 = (x, w2)" by (cases "mega_session_get E lp rp w1")
  have nc1: "ncalls w1 = ncalls w" by (simp add: w1_def)
  have "transient_failure (get_reply E (ncalls w) lp rp)" using Suc.prems(3) by simp
  then obtain e where e: "failure (get_reply E (ncalls w) lp rp) = Some e"
      "\<not> g_error_matches e MEGA_ERROR MEGA_ERROR_OTHER"
    by (auto simp: transient_failure_def split: option.splits)
  have x: "x = Some e" using mega_session_getD(1) [OF g] e nc1 by simp
  define w4 where "w4 = g_printerr (Err_download_failed rp (message e))
      (if \<not> opt_noprogress w2 then g_print Out_clreol w2 else w2)"
  have step: "dl_sync_file_loop E lp rp attempts sl st w
      = dl_sync_file_loop E lp rp (attempts + 1) sl1 False w4"
    apply (subst dl_sync_file_loop.simps)
    using lt g x e(2) by (cases "0 < attempts") (simp_all add: sl1_def w1_def w4_def Let_def)
  have nc4: "ncalls w4 = Suc (ncalls w)"
    using mega_session_getD(2) [OF g] nc1 by (simp add: w4_def)
  have tr4: "actions (trace w4) = actions (trace w) @ (if attempts > 0 then [Usleep sl] else []) @ [SessionGet lp rp]"
    using mega_session_getD(7) [OF g] by (simp add: w4_def w1_def)
  have "r = (if attempts + 1 < 5 then False else False)
       \<and> actions (trace w') = actions (trace w4) @ retry_schedule (SessionGet lp rp) (attempts + 1) sl1"
  proof (rule Suc.IH)
    show "k = nat (5 - (attempts + 1))" using Suc.prems(1) by simp
    show "0 \<le> attempts + 1" using Suc.prems(2) by simp
    show "\<forall>n. ncalls w4 \<le> n \<and> n < ncalls w4 + k \<longrightarrow> transient_failure (get_reply E n lp rp)"
      using Suc.prems(3) nc4 by simp
    show "dl_sync_file_loop E lp rp (attempts + 1) sl1 False w4 = (r, w')"
      using Suc.prems(4) step by simp
  qed
  then show ?case using lt tr4
    by (subst retry_schedule.simps) (simp add: sl1_def)
qed

lemma dl_sync_file_loop_permanent:
  assumes "attempts < 5" "permanent_failure (get_reply E (ncalls w) lp rp)"
    and "dl_sync_file_loop E lp rp attempts sl st w = (r, w')"
  shows "r = False \<and> actions (trace w') = actions (trace w) @ (if attempts > 0 then [Usleep sl] else []) @ [SessionGet lp rp]"
proof -
  define w1 where "w1 = (if attempts > 0
      then g_usleep sl (g_print (Out_attempt_failed attempts (sint sl sdiv 1000000)) w) else w)"
  obtain x w2 where g: "mega_session_get E lp rp w1 = (x, w2)" by (cases "mega_session_get E lp rp w1")
  have nc1: "ncalls w1 = ncalls w" by (simp add: w1_def)
  obtain e where e: "failure (get_reply E (ncalls w) lp rp) = Some e"
      "g_error_matches e MEGA_ERROR MEGA_ERROR_OTHER"
    using assms(2) by (auto simp: permanent_failure_def split: option.splits)
  have x: "x = Some e" using mega_session_getD(1) [OF g] e nc1 by simp
  define w4 where "w4 = g_printerr (Err_download_failed rp (message e))
      (if \<not> opt_noprogress w2 then g_print Out_clreol w2 else w2)"
  have step: "dl_sync_file_loop E lp rp attempts sl st w = (False, w4)"
    apply (subst dl_sync_file_loop.simps)
    using assms(1) g x e(2) by (cases "0 < attempts") (simp_all add: w1_def w4_def Let_def)
  have tr4: "actions (trace w4) = actions (trace w) @ (if attempts > 0 then [Usleep sl] else []) @ [SessionGet lp rp]"
    using mega_session_getD(7) [OF g] by (simp add: w4_def w1_def)
  show ?thesis using step assms(3) tr4 by simp
qed


lemma dl_created_fields [simp]:
  "ncalls (dl_created p w) = ncalls w"
  "trace (dl_created p w) = trace w"
  "cur_file (dl_created p w) = cur_file w"
  "opt_noprogress (dl_created p w) = opt_noprogress w"
  "opt_print_names (dl_created p w) = opt_print_names w"
  "opt_stream (dl_created p w) = opt_stream w"
  "opt_path (dl_created p w) = opt_path w"
  by (simp_all add: dl_created_def split: option.splits)

lemma mega_session_dl_fields:
  "fst (mega_session_dl E h k p w) = failure (dl_reply E (ncalls w) h k p)"
  "ncalls (snd (mega_session_dl E h k p w)) = Suc (ncalls w)"
  "opt_noprogress (snd (mega_session_dl E h k p w)) = opt_noprogress w"
  "opt_print_names (snd (mega_session_dl E h k p w)) = opt_print_names w"
  "opt_stream (snd (mega_session_dl E h k p w)) = opt_stream w"
  "opt_path (snd (mega_session_dl E h k p w)) = opt_path w"
  "actions (trace (snd (mega_session_dl E h k p w))) = actions (trace w) @ [SessionDl h k p]"
  by (simp_all add: mega_session_dl_def Let_def split: option.splits)

lemma mega_session_dlD:
  assumes "mega_session_dl E h k p w = (x, w2)"
  shows "x = failure (dl_reply E (ncalls w) h k p)"
    and "ncalls w2 = Suc (ncalls w)"
    and "opt_noprogress w2 = opt_noprogress w"
    and "opt_print_names w2 = opt_print_names w"
    and "opt_stream w2 = opt_stream w"
    and "opt_path w2 = opt_path w"
    and "actions (trace w2) = actions (trace w) @ [SessionDl h k p]"
  using assms mega_session_dl_fields [of E h k p w] by simp_all

lemma main_dl_loop_step:
  assumes "attempts < 5"
    and "failure (dl_reply E (ncalls w) h k (dl_destination w)) = Some e"
  shows "\<exists>w4. ncalls w4 = Suc (ncalls w) \<and> dl_destination w4 = dl_destination w
       \<and> actions (trace w4) = actions (trace w) @ (if attempts > 0 then [Usleep sl] else [])
                                 @ [SessionDl h k (dl_destination w)]
       \<and> main_dl_loop E link h k attempts sl st w =
           (if g_error_matches e MEGA_ERROR MEGA_ERROR_OTHER then (1, w4)
            else main_dl_loop E link h k (attempts + 1)
                   (if attempts > 0 then push_bit 1 sl else sl) 1 w4)"
proof -
  define w1 where "w1 = (if attempts > 0
      then g_usleep sl (g_print (Out_attempt_failed attempts (sint sl sdiv 1000000)) w) else w)"
  have nc1: "ncalls w1 = ncalls w" and d1: "dl_destination w1 = dl_destination w"
    by (simp_all add: w1_def dl_destination_def)
  obtain x w2 where g: "mega_session_dl E h k (dl_destination w) w1 = (x, w2)"
    by (cases "mega_session_dl E h k (dl_destination w) w1")
  have x: "x = Some e" using mega_session_dlD(1) [OF g] assms(2) nc1 by simp
  define w4 where "w4 = g_printerr (Err_download_failed_link link (message e))
      (if \<not> opt_noprogress w2 then g_print Out_clreol_nl w2 else w2)"
  have "main_dl_loop E link h k attempts sl st w =
           (if g_error_matches e MEGA_ERROR MEGA_ERROR_OTHER then (1, w4)
            else main_dl_loop E link h k (attempts + 1)
                   (if attempts > 0 then push_bit 1 sl else sl) 1 w4)"
    apply (subst main_dl_loop.simps)
    using assms(1) g x d1
    by (cases "0 < attempts") (simp_all add: w1_def w4_def Let_def dl_destination_def)
  moreover have "ncalls w4 = Suc (ncalls w)"
    using mega_session_dlD(2) [OF g] nc1 by (simp add: w4_def)
  moreover have "dl_destination w4 = dl_destination w"
    using mega_session_dlD(5,6) [OF g] by (simp add: w4_def w1_def dl_destination_def)
  moreover have "actions (trace w4) = actions (trace w) @ (if attempts > 0 then [Usleep sl] else [])
                                 @ [SessionDl h k (dl_destination w)]"
    using mega_session_dlD(7) [OF g] by (simp add: w4_def w1_def)
  ultimately show ?thesis by blast
qed

lemma main_dl_loop_transient:
  assumes "k = nat (5 - attempts)" "0 \<le> attempts"
    and "\<forall>n. ncalls w \<le> n \<and> n < ncalls w + k \<longrightarrow>
           transient_failure (dl_reply E n h ky (dl_destination w))"
    and "main_dl_loop E link h ky attempts sl st w = (r, w')"
  shows "r = (if attempts < 5 then 1 else st)
       \<and> actions (trace w') = actions (trace w)
            @ retry_schedule (SessionDl h ky (dl_destination w)) attempts sl"
  using assms
proof (induction k arbitrary: attempts sl st w)
  case 0
  then have "\<not> attempts < 5" by simp
  with "0.prems"(4) show ?case by (simp add: main_dl_loop.simps)
next
  case (Suc k)
  then have lt: "attempts < 5" by simp
  have "transient_failure (dl_reply E (ncalls w) h ky (dl_destination w))"
    using Suc.prems(3) by simp
  then obtain e where e: "failure (dl_reply E (ncalls w) h ky (dl_destination w)) = Some e"
      "\<not> g_error_matches e MEGA_ERROR MEGA_ERROR_OTHER"
    by (auto simp: transient_failure_def split: option.splits)
  define sl1 where "sl1 = (if attempts > 0 then push_bit 1 sl else sl)"
  from main_dl_loop_step [OF lt e(1), where link = link and sl = sl and st = st] e(2)
  obtain w4 where w4: "ncalls w4 = Suc (ncalls w)" "dl_destination w4 = dl_destination w"
      "actions (trace w4) = actions (trace w) @ (if attempts > 0 then [Usleep sl] else [])
                                 @ [SessionDl h ky (dl_destination w)]"
      "main_dl_loop E link h ky attempts sl st w = main_dl_loop E link h ky (attempts + 1) sl1 1 w4"
    unfolding sl1_def by auto
  have "r = (if attempts + 1 < 5 then 1 else 1)
       \<and> actions (trace w') = actions (trace w4)
            @ retry_schedule (SessionDl h ky (dl_destination w4)) (attempts + 1) sl1"
  proof (rule Suc.IH)
    show "k = nat (5 - (attempts + 1))" using Suc.prems(1) by simp
    show "0 \<le> attempts + 1" using Suc.prems(2) by simp
    show "\<forall>n. ncalls w4 \<le> n \<and> n < ncalls w4 + k \<longrightarrow>
            transient_failure (dl_reply E n h ky (dl_destination w4))"
      using Suc.prems(3) w4(1,2) by simp
    show "main_dl_loop E link h ky (attempts + 1) sl1 1 w4 = (r, w')"
      using Suc.prems(4) w4(4) by simp
  qed
  then show ?case using lt w4(2,3)
    by (subst retry_schedule.simps) (simp add: sl1_def)
qed

lemma main_dl_loop_permanent:
  assumes "attempts < 5" "permanent_failure (dl_reply E (ncalls w) h ky (dl_destination w))"
    and "main_dl_loop E link h ky attempts sl st w = (r, w')"
  shows "r = 1 \<and> actions (trace w') = actions (trace w)
            @ (if attempts > 0 then [Usleep sl] else []) @ [SessionDl h ky (dl_destination w)]"
proof -
  obtain e where e: "failure (dl_reply E (ncalls w) h ky (dl_destination w)) = Some e"
      "g_error_matches e MEGA_ERROR MEGA_ERROR_OTHER"
    using assms(2) by (auto simp: permanent_failure_def split: option.splits)
  from main_dl_loop_step [OF assms(1) e(1), where link = link and sl = sl and st = st] e(2) assms(3)
  show ?thesis by auto
qed

lemma dl_sync_file_missing:
  assumes "\<not> g_file_query_exists (fs w) file"
  shows "dl_sync_file E node file rp w =
     (let w1 = (if \<not> opt_noprogress w then g_print (Out_F file) w else w) in
      case dl_sync_file_loop E file rp 0 2000000 True w1 of
        (status, w2) \<Rightarrow>
          if \<not> status then (False, w2)
          else (True, (if opt_print_names w2 then g_print (Out_name (Some file)) else id)
                       ((if \<not> opt_noprogress w2 then g_print Out_clreol else id) w2)))"
  using assms by (simp add: dl_sync_file_def Let_def split: prod.splits)

section \<open>Facts for evaluating concrete runs\<close>

lemmas model_defs =
  main_def tool_fini_def tool_start_session_def mega_session_watch_status_def
  tool_convert_filename_def g_printerr_def g_print_def g_usleep_def emit_def
  mega_session_dl_def mega_session_get_def mega_session_open_exp_folder_def mega_session_ls_def
  dl_created_def deliver_def status_callback_def g_error_matches_def
  g_file_query_exists_def g_file_query_file_type_def g_file_get_child_def path_child_def
  g_file_make_directory_def dl_sync_dir_local_def dl_sync_file_def main_folder_def
  main_dl_loop.simps dl_sync_file_loop.simps Let_def

lemmas regex_defs =
  g_regex_match_def file_regex_def folder_regex_def g_match_info_fetch_def
  lit_at_def lit_char_def in_class_def token_class_def case_variants_def is_newline_def
  utf8_tail_def

lemmas example_defs =
  env_tree_def env_fail_def reply_ok_def reply_fail_def other_error_def http_error_def
  world0_def file_link_1_def file_link_2_def folder_link_def

lemma classify_FolderRefD:
  "classify a = FolderRef h k \<Longrightarrow>
     g_regex_match file_regex a = None \<and> (\<exists>m. g_regex_match folder_regex a = Some m)"
  by (auto simp: classify_def split: option.splits)

section \<open>Retry bound\<close>

text \<open>
  C2. In both retry loops (the file step of the tree sync and the loop of \<open>main\<close> for a
  file link): when every attempt fails with a transient error, exactly five fetches are
  issued, with waits of 2, 4, 8 and 16 seconds (in microseconds) between them, and the
  loop gives up; when the first attempt fails with a permanent error, exactly one fetch
  is issued, with no wait, and the loop gives up. At any attempt, a permanent error ends
  the loop with that fetch: only a transient error is followed by a retry.
\<close>

theorem retry_bound:
  "(\<not> g_file_query_exists (fs w) file
      \<and> (\<forall>n. ncalls w \<le> n \<and> n < ncalls w + 5 \<longrightarrow> transient_failure (get_reply E n file rp))
    \<longrightarrow> \<not> fst (dl_sync_file E node file rp w)
      \<and> actions (trace (snd (dl_sync_file E node file rp w))) = actions (trace w) @
          [SessionGet file rp, Usleep 2000000, SessionGet file rp, Usleep 4000000,
           SessionGet file rp, Usleep 8000000, SessionGet file rp, Usleep 16000000,
           SessionGet file rp])
   \<and> (\<not> g_file_query_exists (fs w) file \<and> permanent_failure (get_reply E (ncalls w) file rp)
    \<longrightarrow> \<not> fst (dl_sync_file E node file rp w)
      \<and> actions (trace (snd (dl_sync_file E node file rp w))) = actions (trace w) @ [SessionGet file rp])
   \<and> ((\<forall>n. ncalls w \<le> n \<and> n < ncalls w + 5
            \<longrightarrow> transient_failure (dl_reply E n handle key (dl_destination w)))
    \<longrightarrow> fst (main_dl_loop E link handle key 0 2000000 status w) = 1
      \<and> actions (trace (snd (main_dl_loop E link handle key 0 2000000 status w))) = actions (trace w) @
          [SessionDl handle key (dl_destination w), Usleep 2000000,
           SessionDl handle key (dl_destination w), Usleep 4000000,
           SessionDl handle key (dl_destination w), Usleep 8000000,
           SessionDl handle key (dl_destination w), Usleep 16000000,
           SessionDl handle key (dl_destination w)])
   \<and> (permanent_failure (dl_reply E (ncalls w) handle key (dl_destination w))
    \<longrightarrow> fst (main_dl_loop E link handle key 0 2000000 status w) = 1
      \<and> actions (trace (snd (main_dl_loop E link handle key 0 2000000 status w))) =
          actions (trace w) @ [SessionDl handle key (dl_destination w)])
   \<and> (attempts < 5 \<and> permanent_failure (get_reply E (ncalls w) file rp)
    \<longrightarrow> \<not> fst (dl_sync_file_loop E file rp attempts sl st w)
      \<and> actions (trace (snd (dl_sync_file_loop E file rp attempts sl st w))) =
          actions (trace w) @ (if attempts > 0 then [Usleep sl] else []) @ [SessionGet file rp])
   \<and> (attempts < 5 \<and> permanent_failure (dl_reply E (ncalls w) handle key (dl_destination w))
    \<longrightarrow> fst (main_dl_loop E link handle key attempts sl status w) = 1
      \<and> actions (trace (snd (main_dl_loop E link handle key attempts sl status w))) =
          actions (trace w) @ (if attempts > 0 then [Usleep sl] else [])
            @ [SessionDl handle key (dl_destination w)])"
proof -
  let ?w1 = "if \<not> opt_noprogress w then g_print (Out_F file) w else w"
  have nc1: "ncalls ?w1 = ncalls w" and tr1: "actions (trace ?w1) = actions (trace w)"
    by simp_all
  have file_transient: "\<not> fst (dl_sync_file E node file rp w)
      \<and> actions (trace (snd (dl_sync_file E node file rp w))) = actions (trace w) @
          retry_schedule (SessionGet file rp) 0 2000000"
    if ex: "\<not> g_file_query_exists (fs w) file"
      and tr: "\<forall>n. ncalls w \<le> n \<and> n < ncalls w + 5 \<longrightarrow> transient_failure (get_reply E n file rp)"
  proof -
    obtain r w2 where l: "dl_sync_file_loop E file rp 0 2000000 True ?w1 = (r, w2)"
      by (cases "dl_sync_file_loop E file rp 0 2000000 True ?w1")
    have "r = (if (0::int) < 5 then False else True)
        \<and> actions (trace w2) = actions (trace ?w1) @ retry_schedule (SessionGet file rp) 0 2000000"
      by (rule dl_sync_file_loop_transient [OF _ _ _ l, of 5]) (use tr nc1 in simp_all)
    then show ?thesis
      using l tr1 by (simp add: dl_sync_file_missing [OF ex] Let_def)
  qed
  have file_permanent: "\<not> fst (dl_sync_file E node file rp w)
      \<and> actions (trace (snd (dl_sync_file E node file rp w))) = actions (trace w) @ [SessionGet file rp]"
    if ex: "\<not> g_file_query_exists (fs w) file"
      and pm: "permanent_failure (get_reply E (ncalls w) file rp)"
  proof -
    obtain r w2 where l: "dl_sync_file_loop E file rp 0 2000000 True ?w1 = (r, w2)"
      by (cases "dl_sync_file_loop E file rp 0 2000000 True ?w1")
    have "r = False \<and> actions (trace w2) = actions (trace ?w1)
        @ (if (0::int) > 0 then [Usleep 2000000] else []) @ [SessionGet file rp]"
      by (rule dl_sync_file_loop_permanent [OF _ _ l]) (use pm nc1 in simp_all)
    then show ?thesis
      using l tr1 by (simp add: dl_sync_file_missing [OF ex] Let_def)
  qed
  have main_transient: "fst (main_dl_loop E link handle key 0 2000000 status w) = 1
      \<and> actions (trace (snd (main_dl_loop E link handle key 0 2000000 status w))) = actions (trace w) @
          retry_schedule (SessionDl handle key (dl_destination w)) 0 2000000"
    if tr: "\<forall>n. ncalls w \<le> n \<and> n < ncalls w + 5
            \<longrightarrow> transient_failure (dl_reply E n handle key (dl_destination w))"
    using main_dl_loop_transient [OF _ _ _ surjective_pairing,
        of 5 0 w E handle key link 2000000 status] tr
    by simp
  have main_permanent: "fst (main_dl_loop E link handle key a s status w) = 1
      \<and> actions (trace (snd (main_dl_loop E link handle key a s status w))) =
          actions (trace w) @ (if a > 0 then [Usleep s] else []) @ [SessionDl handle key (dl_destination w)]"
    if "a < 5" and "permanent_failure (dl_reply E (ncalls w) handle key (dl_destination w))" for a s
    using main_dl_loop_permanent [OF that surjective_pairing] by simp
  have loop_permanent: "\<not> fst (dl_sync_file_loop E file rp attempts sl st w)
      \<and> actions (trace (snd (dl_sync_file_loop E file rp attempts sl st w))) =
          actions (trace w) @ (if attempts > 0 then [Usleep sl] else []) @ [SessionGet file rp]"
    if "attempts < 5" and "permanent_failure (get_reply E (ncalls w) file rp)"
    using dl_sync_file_loop_permanent [OF that surjective_pairing] by simp
  show ?thesis
    using file_transient file_permanent main_transient main_permanent [of 0 2000000]
      main_permanent [of attempts sl] loop_permanent
    by (simp add: retry_schedule_0)
qed

theorem retry_bound_witness:
  "\<not> fst (dl_sync_file (env_fail http_error) (Node ''a'' 0 []) ''./a'' ''/r/a'' world0)
   \<and> actions (trace (snd (dl_sync_file (env_fail http_error) (Node ''a'' 0 []) ''./a'' ''/r/a'' world0))) =
       [SessionGet ''./a'' ''/r/a'', Usleep 2000000, SessionGet ''./a'' ''/r/a'', Usleep 4000000,
        SessionGet ''./a'' ''/r/a'', Usleep 8000000, SessionGet ''./a'' ''/r/a'', Usleep 16000000,
        SessionGet ''./a'' ''/r/a'']
   \<and> actions (trace (snd (dl_sync_file (env_fail other_error) (Node ''a'' 0 []) ''./a'' ''/r/a'' world0))) =
       [SessionGet ''./a'' ''/r/a'']
   \<and> fst (main_dl_loop (env_fail http_error) ''l'' ''h'' ''k'' 0 2000000 0 world0) = 1
   \<and> actions (trace (snd (main_dl_loop (env_fail http_error) ''l'' ''h'' ''k'' 0 2000000 0 world0))) =
       [SessionDl ''h'' ''k'' (Some ''.''), Usleep 2000000, SessionDl ''h'' ''k'' (Some ''.''),
        Usleep 4000000, SessionDl ''h'' ''k'' (Some ''.''), Usleep 8000000,
        SessionDl ''h'' ''k'' (Some ''.''), Usleep 16000000, SessionDl ''h'' ''k'' (Some ''.'')]
   \<and> actions (trace (snd (main_dl_loop (env_fail other_error) ''l'' ''h'' ''k'' 0 2000000 0 world0))) =
       [SessionDl ''h'' ''k'' (Some ''.'')]
   \<and> actions (trace (snd (dl_sync_file_loop (env_fail other_error) ''./a'' ''/r/a'' 3 8000000 False world0))) =
       [Usleep 8000000, SessionGet ''./a'' ''/r/a'']
   \<and> actions (trace (snd (main_dl_loop (env_fail other_error) ''l'' ''h'' ''k'' 3 8000000 1 world0))) =
       [Usleep 8000000, SessionDl ''h'' ''k'' (Some ''.'')]"
proof -
  have ex: "\<not> g_file_query_exists (fs world0) ''./a''"
    by (simp add: g_file_query_exists_def world0_def)
  have t: "transient_failure (reply_fail http_error)"
    by (simp add: transient_failure_def reply_fail_def http_error_def g_error_matches_def)
  have p: "permanent_failure (reply_fail other_error)"
    by (simp add: permanent_failure_def reply_fail_def other_error_def g_error_matches_def)
  have tr0: "actions (trace world0) = []" and d0: "dl_destination world0 = Some ''.''"
    by (simp_all add: world0_def dl_destination_def)
  have a: "(3::int) < 5" by simp
  show ?thesis
    using retry_bound [of world0 "''./a''" "env_fail http_error" "''/r/a''" "Node ''a'' 0 []"
        "''h''" "''k''" "''l''" 0 3 8000000 False]
      retry_bound [of world0 "''./a''" "env_fail other_error" "''/r/a''" "Node ''a'' 0 []"
        "''h''" "''k''" "''l''" 0 3 8000000 False]
      retry_bound [of world0 "''./a''" "env_fail other_error" "''/r/a''" "Node ''a'' 0 []"
        "''h''" "''k''" "''l''" 1 3 8000000 False]
      ex t p tr0 d0 a
    by (simp add: env_fail_def)
qed

section \<open>No overwrite\<close>

text \<open>
  C5. A file step whose local target already exists, whatever its type, fails: it
  reports that the file already exists and does nothing else. No fetch is issued and the
  local file system is left as it is.
\<close>

theorem file_step_no_overwrite:
  "fs w file = Some t \<Longrightarrow>
     dl_sync_file E node file rp w = (False, w\<lparr>trace := trace w @ [PrintErr (Err_file_exists file)]\<rparr>)"
  by (simp add: dl_sync_file_def g_file_query_exists_def g_printerr_def emit_def)

theorem file_step_no_overwrite_witness:
  "fs (world0\<lparr>fs := (fs world0)(''./a'' \<mapsto> G_FILE_TYPE_REGULAR)\<rparr>) ''./a'' = Some G_FILE_TYPE_REGULAR
   \<and> dl_sync_file (env_fail http_error) (Node ''a'' 0 []) ''./a'' ''/r/a''
       (world0\<lparr>fs := (fs world0)(''./a'' \<mapsto> G_FILE_TYPE_REGULAR)\<rparr>)
     = (False, world0\<lparr>fs := (fs world0)(''./a'' \<mapsto> G_FILE_TYPE_REGULAR),
                      trace := [PrintErr (Err_file_exists ''./a'')]\<rparr>)"
proof -
  let ?w = "world0\<lparr>fs := (fs world0)(''./a'' \<mapsto> G_FILE_TYPE_REGULAR)\<rparr>"
  have h: "fs ?w ''./a'' = Some G_FILE_TYPE_REGULAR" by simp
  show ?thesis
    using h file_step_no_overwrite [OF h, of "env_fail http_error" "Node ''a'' 0 []" "''/r/a''"]
    by (simp add: world0_def)
qed

section \<open>The directory step\<close>

lemma directory_step_created:
  assumes "fs w file = None" "make_directory_error E file = None"
  shows "dl_sync_dir E (Node nm ty cs) file rp w =
        dl_sync_children E cs file rp True
          (w\<lparr>trace := trace w @ (if \<not> opt_noprogress w then [Print (Out_D file)] else [])
                        @ [MakeDirectory file],
             fs := (fs w)(file \<mapsto> G_FILE_TYPE_DIRECTORY)\<rparr>)"
  using assms
  by (simp add: dl_sync_dir_local_def g_file_query_exists_def
      g_file_make_directory_def g_print_def emit_def Let_def)

lemma directory_step_create_error:
  assumes "fs w file = None" "make_directory_error E file = Some e"
  shows "dl_sync_dir E (Node nm ty cs) file rp w =
        (False,
         w\<lparr>trace := trace w @ (if \<not> opt_noprogress w then [Print (Out_D file)] else [])
                      @ [MakeDirectory file, PrintErr (Err_cant_create_dir file (message e))]\<rparr>)"
  using assms
  by (simp add: dl_sync_dir_local_def g_file_query_exists_def
      g_file_make_directory_def g_print_def g_printerr_def emit_def Let_def)

lemma directory_step_not_directory:
  assumes "fs w file = Some t" "t \<noteq> G_FILE_TYPE_DIRECTORY"
  shows "dl_sync_dir E (Node nm ty cs) file rp w =
        (False, w\<lparr>trace := trace w @ [PrintErr (Err_cant_create_dir_file_exists file)]\<rparr>)"
  using assms
  by (simp add: dl_sync_dir_local_def g_file_query_exists_def g_file_query_file_type_def
      g_printerr_def emit_def Let_def)

lemma directory_step_directory:
  assumes "fs w file = Some G_FILE_TYPE_DIRECTORY"
  shows "dl_sync_dir E (Node nm ty cs) file rp w = dl_sync_children E cs file rp True w"
  using assms
  by (simp add: dl_sync_dir_local_def g_file_query_exists_def g_file_query_file_type_def Let_def)

text \<open>
  C6. The directory step of \<open>dl_sync_dir\<close>. When the local target is missing, the
  directory is created and the walk goes on to the children; when the creation reports
  an error, the step fails with that error and visits no child. When the local target
  exists and is not a directory, the step fails at once: nothing is created, nothing is
  removed, only the error is printed. When it exists and is a directory, the walk goes
  on to the children from the unchanged state.
\<close>

theorem directory_step:
  "(fs w file = None \<and> make_directory_error E file = None \<longrightarrow>
      dl_sync_dir E (Node nm ty cs) file rp w =
        dl_sync_children E cs file rp True
          (w\<lparr>trace := trace w @ (if \<not> opt_noprogress w then [Print (Out_D file)] else [])
                        @ [MakeDirectory file],
             fs := (fs w)(file \<mapsto> G_FILE_TYPE_DIRECTORY)\<rparr>))
   \<and> (fs w file = None \<and> make_directory_error E file = Some e \<longrightarrow>
      dl_sync_dir E (Node nm ty cs) file rp w =
        (False,
         w\<lparr>trace := trace w @ (if \<not> opt_noprogress w then [Print (Out_D file)] else [])
                      @ [MakeDirectory file, PrintErr (Err_cant_create_dir file (message e))]\<rparr>))
   \<and> (fs w file = Some t \<and> t \<noteq> G_FILE_TYPE_DIRECTORY \<longrightarrow>
      dl_sync_dir E (Node nm ty cs) file rp w =
        (False, w\<lparr>trace := trace w @ [PrintErr (Err_cant_create_dir_file_exists file)]\<rparr>))
   \<and> (fs w file = Some G_FILE_TYPE_DIRECTORY \<longrightarrow>
      dl_sync_dir E (Node nm ty cs) file rp w = dl_sync_children E cs file rp True w)"
proof (intro conjI impI)
  assume "fs w file = None \<and> make_directory_error E file = None"
  then show "dl_sync_dir E (Node nm ty cs) file rp w =
        dl_sync_children E cs file rp True
          (w\<lparr>trace := trace w @ (if \<not> opt_noprogress w then [Print (Out_D file)] else [])
                        @ [MakeDirectory file],
             fs := (fs w)(file \<mapsto> G_FILE_TYPE_DIRECTORY)\<rparr>)"
    by (intro directory_step_created) simp_all
next
  assume "fs w file = None \<and> make_directory_error E file = Some e"
  then show "dl_sync_dir E (Node nm ty cs) file rp w =
        (False,
         w\<lparr>trace := trace w @ (if \<not> opt_noprogress w then [Print (Out_D file)] else [])
                      @ [MakeDirectory file, PrintErr (Err_cant_create_dir file (message e))]\<rparr>)"
    by (intro directory_step_create_error) simp_all
next
  assume "fs w file = Some t \<and> t \<noteq> G_FILE_TYPE_DIRECTORY"
  then show "dl_sync_dir E (Node nm ty cs) file rp w =
        (False, w\<lparr>trace := trace w @ [PrintErr (Err_cant_create_dir_file_exists file)]\<rparr>)"
    by (intro directory_step_not_directory [where t = t]) simp_all
next
  assume "fs w file = Some G_FILE_TYPE_DIRECTORY"
  then show "dl_sync_dir E (Node nm ty cs) file rp w = dl_sync_children E cs file rp True w"
    by (rule directory_step_directory)
qed

theorem directory_step_witness:
  "dl_sync_dir (env_fail http_error) (Node ''d'' 1 []) ''./d'' ''/r/d'' world0 =
     (True, world0\<lparr>fs := (fs world0)(''./d'' \<mapsto> G_FILE_TYPE_DIRECTORY),
                   trace := [Print (Out_D ''./d''), MakeDirectory ''./d'']\<rparr>)
   \<and> dl_sync_dir ((env_fail http_error)\<lparr>make_directory_error := (\<lambda>p. Some other_error)\<rparr>)
       (Node ''d'' 1 [Node ''a'' 0 []]) ''./d'' ''/r/d'' world0 =
     (False, world0\<lparr>trace := [Print (Out_D ''./d''), MakeDirectory ''./d'',
                                PrintErr (Err_cant_create_dir ''./d'' ''File not found'')]\<rparr>)
   \<and> dl_sync_dir (env_fail http_error) (Node ''d'' 1 [Node ''a'' 0 []]) ''./d'' ''/r/d''
       (world0\<lparr>fs := (fs world0)(''./d'' \<mapsto> G_FILE_TYPE_REGULAR)\<rparr>) =
     (False, world0\<lparr>fs := (fs world0)(''./d'' \<mapsto> G_FILE_TYPE_REGULAR),
                    trace := [PrintErr (Err_cant_create_dir_file_exists ''./d'')]\<rparr>)
   \<and> dl_sync_dir (env_fail http_error) (Node ''r'' 1 []) ''.'' ''/r'' world0 = (True, world0)"
proof -
  let ?E = "env_fail http_error"
  let ?E' = "(env_fail http_error)\<lparr>make_directory_error := (\<lambda>p. Some other_error)\<rparr>"
  let ?w = "world0\<lparr>fs := (fs world0)(''./d'' \<mapsto> G_FILE_TYPE_REGULAR)\<rparr>"
  have a: "fs world0 ''./d'' = None \<and> make_directory_error ?E ''./d'' = None"
    by (simp add: world0_def env_fail_def)
  have b: "fs world0 ''./d'' = None \<and> make_directory_error ?E' ''./d'' = Some other_error"
    by (simp add: world0_def)
  have c: "fs ?w ''./d'' = Some G_FILE_TYPE_REGULAR \<and> G_FILE_TYPE_REGULAR \<noteq> G_FILE_TYPE_DIRECTORY"
    by simp
  have d: "fs world0 ''.'' = Some G_FILE_TYPE_DIRECTORY"
    by (simp add: world0_def)
  show ?thesis
    using a b c d
      directory_step [of world0 "''./d''" ?E "''d''" 1 "[]" "''/r/d''"]
      directory_step [of world0 "''./d''" ?E' "''d''" 1 "[Node ''a'' 0 []]" "''/r/d''" other_error]
      directory_step [of ?w "''./d''" ?E "''d''" 1 "[Node ''a'' 0 []]" "''/r/d''" _ G_FILE_TYPE_REGULAR]
      directory_step [of world0 "''.''" ?E "''r''" 1 "[]" "''/r''"]
    by (simp add: world0_def other_error_def)
qed

section \<open>Current file name\<close>

lemma deliver_Cons: "deliver (d # ds) w = deliver ds (status_callback d w)"
  by (simp add: deliver_def)

lemma cur_file_status_callback:
  "cur_file (status_callback d w) = (if is_MEGA_STATUS_FILEINFO d then Some (fileinfo_name d) else cur_file w)"
  by (simp add: status_callback_def Let_def)

lemma cur_file_deliver:
  "cur_file (deliver evs w) = (case last_fileinfo evs of None \<Rightarrow> cur_file w | Some n \<Rightarrow> Some n)"
proof (induction evs arbitrary: w)
  case Nil
  then show ?case by (simp add: deliver_def)
next
  case (Cons d ds)
  show ?case
    by (simp add: deliver_Cons Cons.IH cur_file_status_callback split: option.splits)
qed

lemma main_dl_loop_success:
  assumes "attempts < 5"
    and "failure (dl_reply E (ncalls w) handle key (dl_destination w)) = None"
  shows "main_dl_loop E link handle key attempts sl status w =
     (let w1 = (if attempts > 0
                then g_usleep sl (g_print (Out_attempt_failed attempts (sint sl sdiv 1000000)) w)
                else w);
          w2 = snd (mega_session_dl E handle key (dl_destination w) w1)
      in (0, w2\<lparr>trace := trace w2
                   @ (if \<not> opt_noprogress w then [Print (Out_downloaded (cur_file w2))] else [])
                   @ (if opt_print_names w then [Print (Out_name (cur_file w2))] else [])\<rparr>))"
proof -
  define w1 where "w1 = (if attempts > 0
      then g_usleep sl (g_print (Out_attempt_failed attempts (sint sl sdiv 1000000)) w) else w)"
  have nc1: "ncalls w1 = ncalls w" and d1: "dl_destination w1 = dl_destination w"
    and o1: "opt_noprogress w1 = opt_noprogress w" "opt_print_names w1 = opt_print_names w"
    by (simp_all add: w1_def dl_destination_def)
  obtain x w2 where g: "mega_session_dl E handle key (dl_destination w) w1 = (x, w2)"
    by (cases "mega_session_dl E handle key (dl_destination w) w1")
  have x: "x = None" using mega_session_dlD(1) [OF g] assms(2) nc1 by simp
  have o2: "opt_noprogress w2 = opt_noprogress w" "opt_print_names w2 = opt_print_names w"
    using mega_session_dlD(3,4) [OF g] o1 by simp_all
  show ?thesis
    apply (subst main_dl_loop.simps)
    using assms(1) g x d1 o2
    by (cases "0 < attempts")
       (simp_all add: w1_def Let_def dl_destination_def g_print_def emit_def)
qed

lemma cur_file_mega_session_dl:
  "cur_file (snd (mega_session_dl E h k p w)) =
     (case last_fileinfo (status_events (dl_reply E (ncalls w) h k p)) of
        None \<Rightarrow> cur_file w | Some n \<Rightarrow> Some n)"
  by (simp add: mega_session_dl_def Let_def cur_file_deliver emit_def split: option.splits)

text \<open>
  C9. Each \<open>FileInfo\<close> event overwrites the one slot \<open>cur_file\<close>: after a sequence of
  status events the slot holds the name of the last \<open>FileInfo\<close> event of the sequence (and
  its old content when there was none). When a fetch of \<open>main\<close> succeeds, the messages
  printed last (the success line, and the name under \<open>--print-names\<close>) carry the content of
  the slot at that moment: the name most recently delivered.
\<close>

theorem current_file_name:
  "cur_file (deliver evs w) = (case last_fileinfo evs of None \<Rightarrow> cur_file w | Some n \<Rightarrow> Some n)
   \<and> (attempts < 5 \<and> failure (dl_reply E (ncalls w) handle key (dl_destination w)) = None \<longrightarrow>
        (\<exists>w2. cur_file w2 =
                 (case last_fileinfo (status_events (dl_reply E (ncalls w) handle key (dl_destination w))) of
                    None \<Rightarrow> cur_file w | Some n \<Rightarrow> Some n)
             \<and> main_dl_loop E link handle key attempts sl status w =
                 (0, w2\<lparr>trace := trace w2
                       @ (if \<not> opt_noprogress w then [Print (Out_downloaded (cur_file w2))] else [])
                       @ (if opt_print_names w then [Print (Out_name (cur_file w2))] else [])\<rparr>)))"
proof (intro conjI impI)
  show "cur_file (deliver evs w) = (case last_fileinfo evs of None \<Rightarrow> cur_file w | Some n \<Rightarrow> Some n)"
    by (rule cur_file_deliver)
next
  assume a: "attempts < 5 \<and> failure (dl_reply E (ncalls w) handle key (dl_destination w)) = None"
  define w1 where "w1 = (if attempts > 0
      then g_usleep sl (g_print (Out_attempt_failed attempts (sint sl sdiv 1000000)) w) else w)"
  define w2 where "w2 = snd (mega_session_dl E handle key (dl_destination w) w1)"
  have "cur_file w2 =
      (case last_fileinfo (status_events (dl_reply E (ncalls w) handle key (dl_destination w))) of
         None \<Rightarrow> cur_file w | Some n \<Rightarrow> Some n)"
  proof -
    have "cur_file w1 = cur_file w" "ncalls w1 = ncalls w" by (simp_all add: w1_def)
    then show ?thesis unfolding w2_def cur_file_mega_session_dl by (simp split: option.splits)
  qed
  moreover have "main_dl_loop E link handle key attempts sl status w =
      (0, w2\<lparr>trace := trace w2
            @ (if \<not> opt_noprogress w then [Print (Out_downloaded (cur_file w2))] else [])
            @ (if opt_print_names w then [Print (Out_name (cur_file w2))] else [])\<rparr>)"
    using main_dl_loop_success [of attempts E w handle key link sl status] a
    by (simp add: w1_def w2_def Let_def)
  ultimately show "\<exists>w2. cur_file w2 =
                 (case last_fileinfo (status_events (dl_reply E (ncalls w) handle key (dl_destination w))) of
                    None \<Rightarrow> cur_file w | Some n \<Rightarrow> Some n)
             \<and> main_dl_loop E link handle key attempts sl status w =
                 (0, w2\<lparr>trace := trace w2
                       @ (if \<not> opt_noprogress w then [Print (Out_downloaded (cur_file w2))] else [])
                       @ (if opt_print_names w then [Print (Out_name (cur_file w2))] else [])\<rparr>)"
    by blast
qed

theorem current_file_name_witness:
  "cur_file (deliver [MEGA_STATUS_FILEINFO ''a'', MEGA_STATUS_PROGRESS 1 2, MEGA_STATUS_FILEINFO ''b'',
                      MEGA_STATUS_DATA ''xyz''] world0) = Some ''b''
   \<and> fst (main_dl_loop (env_tree (Node ''r'' 1 []) ''x'') ''l'' ''h'' ''k'' 0 2000000 0
            (world0\<lparr>cur_file := Some ''old''\<rparr>)) = 0
   \<and> last (trace (snd (main_dl_loop (env_tree (Node ''r'' 1 []) ''x'') ''l'' ''h'' ''k'' 0 2000000 0
            (world0\<lparr>cur_file := Some ''old''\<rparr>)))) = Print (Out_downloaded (Some ''b.bin''))"
proof -
  let ?E = "env_tree (Node ''r'' 1 []) ''x''"
  let ?w = "world0\<lparr>cur_file := Some ''old''\<rparr>"
  have d: "dl_destination ?w = Some ''.''" and o: "\<not> opt_noprogress ?w" "\<not> opt_print_names ?w"
    and n: "ncalls ?w = 0"
    by (simp_all add: dl_destination_def world0_def)
  have r: "dl_reply ?E 0 ''h'' ''k'' (Some ''.'') = reply_ok ''b.bin''"
    by (simp add: env_tree_def)
  have h: "(0::int) < 5 \<and> failure (dl_reply ?E (ncalls ?w) ''h'' ''k'' (dl_destination ?w)) = None"
    by (simp add: d n r reply_ok_def)
  have l: "last_fileinfo (status_events (reply_ok ''b.bin'')) = Some ''b.bin''"
    by (simp add: reply_ok_def)
  have c: "cur_file (deliver [MEGA_STATUS_FILEINFO ''a'', MEGA_STATUS_PROGRESS 1 2,
      MEGA_STATUS_FILEINFO ''b'', MEGA_STATUS_DATA ''xyz''] world0) = Some ''b''"
    using current_file_name [where evs = "[MEGA_STATUS_FILEINFO ''a'', MEGA_STATUS_PROGRESS 1 2,
      MEGA_STATUS_FILEINFO ''b'', MEGA_STATUS_DATA ''xyz'']" and w = world0]
    by simp
  from current_file_name [where evs = "[]" and w = ?w and attempts = 0 and E = ?E
      and handle = "''h''" and key = "''k''" and link = "''l''" and sl = 2000000 and status = 0] h
  have "\<exists>w2. cur_file w2 = Some ''b.bin''
      \<and> main_dl_loop ?E ''l'' ''h'' ''k'' 0 2000000 0 ?w =
          (0, w2\<lparr>trace := trace w2 @ [Print (Out_downloaded (cur_file w2))]\<rparr>)"
    using d n r l o by simp
  then obtain w2 where w2: "cur_file w2 = Some ''b.bin''"
    and eq: "main_dl_loop ?E ''l'' ''h'' ''k'' 0 2000000 0 ?w =
      (0, w2\<lparr>trace := trace w2 @ [Print (Out_downloaded (cur_file w2))]\<rparr>)"
    by blast
  show ?thesis
    unfolding eq using c w2 by simp
qed

section \<open>Streaming exclusivity\<close>

lemma stream_multiple:
  assumes "opt_path w0 = ''-''" "2 < length av"
  shows "main E av w0 =
     (1, w0\<lparr>opt_stream := True, opt_noprogress := True,
             trace := trace w0 @ [PrintErr Err_stream_multiple, ToolFini]\<rparr>)"
  using assms by (simp add: main_def Let_def tool_fini_def g_printerr_def emit_def)

lemma stream_folder:
  assumes "opt_path w0 = ''-''" "classify a = FolderRef h k"
  shows "main E [prog, a] w0 =
     (1, w0\<lparr>opt_stream := True, opt_noprogress := True,
             trace := trace w0 @ [StartSession, WatchStatus, PrintErr Err_stream_directory, ToolFini]\<rparr>)"
  using assms(1) classify_FolderRefD [OF assms(2)]
  by (auto simp add: main_def Let_def tool_fini_def g_printerr_def emit_def tool_start_session_def
      mega_session_watch_status_def tool_convert_filename_def)

text \<open>
  C8. With the destination \<open>-\<close> (stream mode): when more than one link is given, \<open>main\<close>
  returns 1 before the session is even created; when the only link is a folder link,
  \<open>main\<close> returns 1 right after the session is created, before any operation of the
  session. In both cases no session operation appears among the actions of the run.
\<close>

theorem streaming_exclusive:
  "(opt_path w0 = ''-'' \<and> 2 < length av \<longrightarrow>
      main E av w0 =
        (1, w0\<lparr>opt_stream := True, opt_noprogress := True,
                trace := trace w0 @ [PrintErr Err_stream_multiple, ToolFini]\<rparr>)
      \<and> filter is_network_call (trace (snd (main E av w0))) = filter is_network_call (trace w0))
   \<and> (opt_path w0 = ''-'' \<and> classify a = FolderRef h k \<longrightarrow>
      main E [prog, a] w0 =
        (1, w0\<lparr>opt_stream := True, opt_noprogress := True,
                trace := trace w0 @ [StartSession, WatchStatus, PrintErr Err_stream_directory, ToolFini]\<rparr>)
      \<and> filter is_network_call (trace (snd (main E [prog, a] w0))) = filter is_network_call (trace w0))"
proof (intro conjI impI)
  assume a: "opt_path w0 = ''-'' \<and> 2 < length av"
  then show m: "main E av w0 =
        (1, w0\<lparr>opt_stream := True, opt_noprogress := True,
                trace := trace w0 @ [PrintErr Err_stream_multiple, ToolFini]\<rparr>)"
    by (intro stream_multiple) simp_all
  show "filter is_network_call (trace (snd (main E av w0))) = filter is_network_call (trace w0)"
    unfolding m by simp
next
  assume a: "opt_path w0 = ''-'' \<and> classify a = FolderRef h k"
  then show m: "main E [prog, a] w0 =
        (1, w0\<lparr>opt_stream := True, opt_noprogress := True,
                trace := trace w0 @ [StartSession, WatchStatus, PrintErr Err_stream_directory, ToolFini]\<rparr>)"
    by (intro stream_folder [where h = h and k = k]) simp_all
  show "filter is_network_call (trace (snd (main E [prog, a] w0))) = filter is_network_call (trace w0)"
    unfolding m by simp
qed

theorem streaming_exclusive_witness:
  "main (env_tree (Node ''r'' 1 []) ''x'') [''megadl'', file_link_1, file_link_2]
       (world0\<lparr>opt_path := ''-''\<rparr>) =
     (1, world0\<lparr>opt_path := ''-'', opt_stream := True, opt_noprogress := True,
                trace := [PrintErr Err_stream_multiple, ToolFini]\<rparr>)
   \<and> classify folder_link = FolderRef ''CCCCCCCC'' ''0123456789012345678_-z''
   \<and> main (env_tree (Node ''r'' 1 []) ''x'') [''megadl'', folder_link] (world0\<lparr>opt_path := ''-''\<rparr>) =
     (1, world0\<lparr>opt_path := ''-'', opt_stream := True, opt_noprogress := True,
                trace := [StartSession, WatchStatus, PrintErr Err_stream_directory, ToolFini]\<rparr>)"
proof -
  let ?w = "world0\<lparr>opt_path := ''-''\<rparr>"
  let ?E = "env_tree (Node ''r'' 1 []) ''x''"
  have p: "opt_path ?w = ''-''" by simp
  have l: "2 < length [''megadl'', file_link_1, file_link_2]" by simp
  have c: "classify folder_link = FolderRef ''CCCCCCCC'' ''0123456789012345678_-z''"
    by (simp add: classify_def regex_defs folder_link_def)
  show ?thesis
    using streaming_exclusive [of ?w "[''megadl'', file_link_1, file_link_2]" ?E folder_link
        "''CCCCCCCC''" "''0123456789012345678_-z''" "''megadl''"] p l c
    by (simp add: world0_def)
qed

section \<open>Exit status of a batch\<close>

text \<open>
  C1. The exit status of \<open>main\<close> is meant to be non-zero as soon as one link of the batch
  failed. The retry loop for a file link stores 0 in \<open>status\<close> when its fetch succeeds,
  which also erases the failure of an earlier link: with two file links of which the
  first fails with a permanent error and the second is fetched, \<open>main\<close> reports the
  failure of the first and returns 0. With the same two links in the other order it
  returns 1.
\<close>

theorem exit_status_reset_by_later_success:
  "fst (main (env_tree (Node ''r'' 1 []) ''AAAAAAAA'') [''megadl'', file_link_1, file_link_2] world0) = 0
   \<and> trace (snd (main (env_tree (Node ''r'' 1 []) ''AAAAAAAA'')
                   [''megadl'', file_link_1, file_link_2] world0)) =
       [StartSession, WatchStatus,
        SessionDl ''AAAAAAAA'' ''0123456789012345678901234567890123456789_-z'' (Some ''.''),
        Print Out_clreol_nl,
        PrintErr (Err_download_failed_link file_link_1 ''File not found''),
        SessionDl ''BBBBBBBB'' ''0123456789012345678901234567890123456789_-z'' (Some ''.''),
        ShowProgress (Some ''b.bin'') (MEGA_STATUS_PROGRESS 1 1),
        Print (Out_downloaded (Some ''b.bin'')),
        ToolFini]
   \<and> fst (main (env_tree (Node ''r'' 1 []) ''AAAAAAAA'') [''megadl'', file_link_2, file_link_1] world0) = 1"
  by (simp add: model_defs regex_defs example_defs)

section \<open>Destination of a folder link\<close>

lemma main_folder_not_directory:
  assumes "open_exp_folder_reply E (ncalls w) handle key = None"
    and "ls_reply E (Suc (ncalls w)) ''/'' = [root_node]"
    and "fs w (opt_path w) \<noteq> Some G_FILE_TYPE_DIRECTORY"
  shows "main_folder E link handle key status w =
     (1, (folder_opened handle key w)
           \<lparr>trace := trace (folder_opened handle key w) @ [PrintErr (Err_must_be_directory (opt_path w))]\<rparr>)"
  using assms
  by (cases "fs w (opt_path w)")
     (simp_all add: main_folder_def mega_session_open_exp_folder_def mega_session_ls_def
      mega_session_watch_status_def g_file_query_file_type_def g_printerr_def emit_def
      folder_opened_def Let_def)

lemma main_folder_directory:
  assumes "open_exp_folder_reply E (ncalls w) handle key = None"
    and "ls_reply E (Suc (ncalls w)) ''/'' = [Node nm ty cs]"
    and "fs w (opt_path w) = Some G_FILE_TYPE_DIRECTORY"
  shows "main_folder E link handle key status w =
     (case dl_sync_children E cs (opt_path w) (mega_node_get_path_dup E (Node nm ty cs)) True
             (folder_opened handle key w) of
        (ok, w4) \<Rightarrow> (if \<not> ok then 1 else status, w4))"
proof -
  have d: "dl_sync_dir E (Node nm ty cs) (opt_path w) rp (folder_opened handle key w) =
      dl_sync_children E cs (opt_path w) rp True (folder_opened handle key w)" for rp
    by (rule directory_step_directory) (simp add: folder_opened_def assms(3))
  show ?thesis
    using assms d
    by (simp add: main_folder_def mega_session_open_exp_folder_def mega_session_ls_def
      mega_session_watch_status_def g_file_query_file_type_def emit_def
      folder_opened_def Let_def)
qed

lemma main_folder_never_creates:
  assumes "fs w (opt_path w) \<noteq> Some G_FILE_TYPE_DIRECTORY"
  shows "fst (main_folder E link handle key status w) = 1
       \<and> fs (snd (main_folder E link handle key status w)) = fs w"
proof (cases "open_exp_folder_reply E (ncalls w) handle key")
  case (Some e)
  then show ?thesis
    by (simp add: main_folder_def mega_session_open_exp_folder_def)
next
  case None
  have t: "g_file_query_file_type (fs w) (opt_path w) \<noteq> G_FILE_TYPE_DIRECTORY"
    using assms by (cases "fs w (opt_path w)") (simp_all add: g_file_query_file_type_def)
  show ?thesis
    using None t
    by (simp add: main_folder_def mega_session_open_exp_folder_def mega_session_ls_def
        mega_session_watch_status_def Let_def split: list.splits)
qed

text \<open>
  C10. For a folder link: when the destination \<open>opt_path\<close> is not an existing directory
  (nothing is there, or something that is not a directory), the link fails with status 1
  and the local file system is not touched, so the destination is never created; when
  the folder opens and lists exactly one top-level node, the error printed is that the
  destination must be a directory. When the destination is a directory, the children of
  the remote root are synchronised with the destination itself as their parent: the
  result is that of the loop over the children of the root, run on \<open>opt_path\<close>.
\<close>

theorem folder_destination:
  "(fs w (opt_path w) \<noteq> Some G_FILE_TYPE_DIRECTORY \<longrightarrow>
        fst (main_folder E link handle key status w) = 1
        \<and> fs (snd (main_folder E link handle key status w)) = fs w)
   \<and> (open_exp_folder_reply E (ncalls w) handle key = None
      \<and> ls_reply E (Suc (ncalls w)) ''/'' = [Node nm ty cs]
      \<and> fs w (opt_path w) \<noteq> Some G_FILE_TYPE_DIRECTORY \<longrightarrow>
        main_folder E link handle key status w =
          (1, (folder_opened handle key w)
                \<lparr>trace := trace (folder_opened handle key w)
                            @ [PrintErr (Err_must_be_directory (opt_path w))]\<rparr>)
        \<and> fs (snd (main_folder E link handle key status w)) = fs w)
   \<and> (open_exp_folder_reply E (ncalls w) handle key = None
      \<and> ls_reply E (Suc (ncalls w)) ''/'' = [Node nm ty cs]
      \<and> fs w (opt_path w) = Some G_FILE_TYPE_DIRECTORY \<longrightarrow>
        main_folder E link handle key status w =
          (case dl_sync_children E cs (opt_path w) (mega_node_get_path_dup E (Node nm ty cs)) True
                  (folder_opened handle key w) of
             (ok, w4) \<Rightarrow> (if \<not> ok then 1 else status, w4)))"
proof (intro conjI impI)
  assume "fs w (opt_path w) \<noteq> Some G_FILE_TYPE_DIRECTORY"
  then show "fst (main_folder E link handle key status w) = 1"
    and "fs (snd (main_folder E link handle key status w)) = fs w"
    using main_folder_never_creates by blast+
next
  assume a: "open_exp_folder_reply E (ncalls w) handle key = None
      \<and> ls_reply E (Suc (ncalls w)) ''/'' = [Node nm ty cs]
      \<and> fs w (opt_path w) \<noteq> Some G_FILE_TYPE_DIRECTORY"
  then show m: "main_folder E link handle key status w =
          (1, (folder_opened handle key w)
                \<lparr>trace := trace (folder_opened handle key w)
                            @ [PrintErr (Err_must_be_directory (opt_path w))]\<rparr>)"
    by (intro main_folder_not_directory) simp_all
  show "fs (snd (main_folder E link handle key status w)) = fs w"
    unfolding m by (simp add: folder_opened_def)
next
  assume a: "open_exp_folder_reply E (ncalls w) handle key = None
      \<and> ls_reply E (Suc (ncalls w)) ''/'' = [Node nm ty cs]
      \<and> fs w (opt_path w) = Some G_FILE_TYPE_DIRECTORY"
  then show "main_folder E link handle key status w =
          (case dl_sync_children E cs (opt_path w) (mega_node_get_path_dup E (Node nm ty cs)) True
                  (folder_opened handle key w) of
             (ok, w4) \<Rightarrow> (if \<not> ok then 1 else status, w4))"
    by (intro main_folder_directory) simp_all
qed

theorem folder_destination_witness:
  "fst (main_folder (env_tree (Node ''root'' 1 [Node ''a'' 0 []]) ''x'') folder_link ''h'' ''k'' 0
          (world0\<lparr>opt_path := ''out''\<rparr>)) = 1
   \<and> fs (snd (main_folder (env_tree (Node ''root'' 1 [Node ''a'' 0 []]) ''x'') folder_link ''h'' ''k'' 0
          (world0\<lparr>opt_path := ''out''\<rparr>))) ''out'' = None
   \<and> fst (main_folder (env_tree (Node ''root'' 1 [Node ''a'' 0 []]) ''x'') folder_link ''h'' ''k'' 0
          world0) = 0
   \<and> fs (snd (main_folder (env_tree (Node ''root'' 1 [Node ''a'' 0 []]) ''x'') folder_link ''h'' ''k'' 0
          world0)) ''./a'' = Some G_FILE_TYPE_REGULAR
   \<and> fs (snd (main_folder (env_tree (Node ''root'' 1 [Node ''a'' 0 []]) ''x'') folder_link ''h'' ''k'' 0
          world0)) ''./root'' = None"
proof -
  let ?E = "env_tree (Node ''root'' 1 [Node ''a'' 0 []]) ''x''"
  let ?w = "world0\<lparr>opt_path := ''out''\<rparr>"
  have a: "open_exp_folder_reply ?E (ncalls ?w) ''h'' ''k'' = None
      \<and> ls_reply ?E (Suc (ncalls ?w)) ''/'' = [Node ''root'' 1 [Node ''a'' 0 []]]
      \<and> fs ?w (opt_path ?w) \<noteq> Some G_FILE_TYPE_DIRECTORY"
    by (simp add: env_tree_def world0_def)
  have b: "open_exp_folder_reply ?E (ncalls world0) ''h'' ''k'' = None
      \<and> ls_reply ?E (Suc (ncalls world0)) ''/'' = [Node ''root'' 1 [Node ''a'' 0 []]]
      \<and> fs world0 (opt_path world0) = Some G_FILE_TYPE_DIRECTORY"
    by (simp add: env_tree_def world0_def)
  have "fst (main_folder ?E folder_link ''h'' ''k'' 0 ?w) = 1
      \<and> fs (snd (main_folder ?E folder_link ''h'' ''k'' 0 ?w)) ''out'' = None"
    using folder_destination [where E = ?E and w = ?w and handle = "''h''" and key = "''k''"
        and nm = "''root''" and ty = 1 and cs = "[Node ''a'' 0 []]" and link = folder_link
        and status = 0] a
    by (simp add: world0_def folder_opened_def)
  moreover have "fst (main_folder ?E folder_link ''h'' ''k'' 0 world0) = 0
      \<and> fs (snd (main_folder ?E folder_link ''h'' ''k'' 0 world0)) ''./a'' = Some G_FILE_TYPE_REGULAR
      \<and> fs (snd (main_folder ?E folder_link ''h'' ''k'' 0 world0)) ''./root'' = None"
    using folder_destination [where E = ?E and w = world0 and handle = "''h''" and key = "''k''"
        and nm = "''root''" and ty = 1 and cs = "[Node ''a'' 0 []]" and link = folder_link
        and status = 0] b
    by (simp add: folder_opened_def model_defs example_defs)
  ultimately show ?thesis by blast
qed

section \<open>Aggregation over the children\<close>

lemma dl_sync_children_visit_all:
  "dl_sync_children E cs file rp status w =
     (status \<and> list_all id (fst (visit_all E file rp cs w)), snd (visit_all E file rp cs w))"
proof (induction cs arbitrary: status w)
  case Nil
  show ?case by simp
next
  case (Cons c cs)
  obtain r w1 where s: "child_step E file rp c w = (r, w1)" by (cases "child_step E file rp c w")
  then have s': "(if type c = 0
      then dl_sync_file E c (g_file_get_child file (name c)) (rp @ ''/'' @ name c) w
      else dl_sync_dir E c (g_file_get_child file (name c)) (rp @ ''/'' @ name c) w) = (r, w1)"
    by (simp add: child_step_def)
  show ?case
    using s s' Cons.IH [of "if \<not> r then False else status" w1]
    by (auto simp: Let_def split: prod.splits)
qed

lemma length_visit_all: "length (fst (visit_all E file rp cs w)) = length cs"
proof (induction cs arbitrary: w)
  case Nil
  show ?case by simp
next
  case (Cons c cs)
  obtain r w1 where s: "child_step E file rp c w = (r, w1)" by (cases "child_step E file rp c w")
  obtain rs w2 where v: "visit_all E file rp cs w1 = (rs, w2)" by (cases "visit_all E file rp cs w1")
  show ?case using s v Cons.IH [of w1] by simp
qed

section \<open>Paths\<close>

lemma path_components_name: "CHR ''/'' \<notin> set nm \<Longrightarrow> path_components nm = [nm]"
  by (induction nm) auto

lemma g_file_get_child_proper:
  "proper_name nm \<Longrightarrow> g_file_get_child file nm = as_dir file @ nm"
  by (auto simp: g_file_get_child_def path_components_name path_child_def proper_name_def
      as_dir_def)

lemma g_file_get_child_self:
  "g_file_get_child file [] = file" "g_file_get_child file ''.'' = file"
  by (simp_all add: g_file_get_child_def path_child_def)

lemma g_file_get_child_parent: "g_file_get_child ''/tmp/vd'' ''..'' = ''/tmp''"
  by (simp add: g_file_get_child_def path_child_def path_parent_def)

lemma as_dir_name:
  assumes "proper_name n"
  shows "as_dir (as_dir p @ n) = as_dir p @ n @ ''/''"
proof -
  have n: "n \<noteq> []" "CHR ''/'' \<notin> set n" using assms by (simp_all add: proper_name_def)
  have "last n \<in> set n" using n(1) by (rule last_in_set)
  then have "last n \<noteq> CHR ''/''" using n(2) by auto
  then show ?thesis using n(1) by (simp add: as_dir_def)
qed

lemma under_neq: "under p q \<Longrightarrow> q \<noteq> p"
  by (auto simp: under_def as_dir_def split: if_splits)

lemma child_under:
  assumes "proper_name n" "at_or_under (g_file_get_child p n) q"
  shows "under p q"
proof -
  from assms(2) consider "q = as_dir p @ n" | s where "q = as_dir p @ n @ ''/'' @ s"
    by (auto simp: at_or_under_def under_def g_file_get_child_proper [OF assms(1)]
        as_dir_name [OF assms(1)])
  then show ?thesis
  proof cases
    case 1
    then show ?thesis using assms(1) by (auto simp: under_def proper_name_def)
  next
    case 2
    then show ?thesis unfolding under_def by (intro exI [of _ "n @ ''/'' @ s"]) simp
  qed
qed

lemma at_or_under_refl: "at_or_under a a"
  by (simp add: at_or_under_def)

lemma takeWhile_name:
  "CHR ''/'' \<notin> set n \<Longrightarrow> takeWhile (\<lambda>c. c \<noteq> CHR ''/'') (n @ CHR ''/'' # s) = n"
  by (induction n) auto

lemma name_of_region:
  assumes "proper_name n" "at_or_under (g_file_get_child p n) q"
  shows "takeWhile (\<lambda>c. c \<noteq> CHR ''/'') (drop (length (as_dir p)) q) = n"
proof -
  have ns: "CHR ''/'' \<notin> set n" using assms(1) by (simp add: proper_name_def)
  from assms(2) consider "q = as_dir p @ n" | s where "q = as_dir p @ n @ CHR ''/'' # s"
    by (auto simp: at_or_under_def under_def g_file_get_child_proper [OF assms(1)]
        as_dir_name [OF assms(1)])
  then show ?thesis
  proof cases
    case 1
    then show ?thesis using ns by auto
  next
    case 2
    then show ?thesis using ns by (simp add: takeWhile_name)
  qed
qed

lemma regions_disjoint:
  assumes "proper_name n" "proper_name n'" "n \<noteq> n'"
    and "at_or_under (g_file_get_child p n) q"
  shows "\<not> at_or_under (g_file_get_child p n') q"
  using name_of_region [OF assms(1,4)] name_of_region [OF assms(2)] assms(3) by auto


section \<open>The file step and the local file system\<close>

lemma fs_mega_session_get:
  "q \<noteq> lp \<Longrightarrow> fs (snd (mega_session_get E lp rp w)) q = fs w q"
  "failure (get_reply E (ncalls w) lp rp) = None \<Longrightarrow>
     fs (snd (mega_session_get E lp rp w)) lp = Some G_FILE_TYPE_REGULAR"
  by (simp_all add: mega_session_get_def Let_def split: option.splits)

lemma dl_sync_file_loop_unfold:
  assumes "attempts < 5"
  shows "\<exists>w2. (\<forall>q. q \<noteq> lp \<longrightarrow> fs w2 q = fs w q) \<and> ncalls w2 = Suc (ncalls w) \<and>
     (case failure (get_reply E (ncalls w) lp rp) of
        None \<Rightarrow> fs w2 lp = Some G_FILE_TYPE_REGULAR
                \<and> dl_sync_file_loop E lp rp attempts sl st w = (True, w2)
      | Some e \<Rightarrow>
          (if g_error_matches e MEGA_ERROR MEGA_ERROR_OTHER
           then dl_sync_file_loop E lp rp attempts sl st w = (False, w2)
           else \<exists>sl1. dl_sync_file_loop E lp rp attempts sl st w
                        = dl_sync_file_loop E lp rp (attempts + 1) sl1 False w2))"
proof -
  define w1 where "w1 = (if attempts > 0
      then g_usleep sl (g_print (Out_attempt_failed attempts (sint sl sdiv 1000000)) w) else w)"
  have nc1: "ncalls w1 = ncalls w" and fs1: "fs w1 = fs w" by (simp_all add: w1_def)
  obtain x w2 where g: "mega_session_get E lp rp w1 = (x, w2)" by (cases "mega_session_get E lp rp w1")
  have x: "x = failure (get_reply E (ncalls w) lp rp)" using mega_session_getD(1) [OF g] nc1 by simp
  have nc2: "ncalls w2 = Suc (ncalls w)" using mega_session_getD(2) [OF g] nc1 by simp
  have fr2: "\<forall>q. q \<noteq> lp \<longrightarrow> fs w2 q = fs w q"
    using fs_mega_session_get(1) [of _ lp E rp w1] g fs1 by simp
  show ?thesis
  proof (cases "failure (get_reply E (ncalls w) lp rp)")
    case None
    have "fs w2 lp = Some G_FILE_TYPE_REGULAR"
      using fs_mega_session_get(2) [of E w1 lp rp] g None nc1 by simp
    moreover have "dl_sync_file_loop E lp rp attempts sl st w = (True, w2)"
      apply (subst dl_sync_file_loop.simps)
      using assms g x None by (cases "0 < attempts") (simp_all add: w1_def Let_def)
    ultimately show ?thesis using fr2 nc2 None by auto
  next
    case (Some e)
    define w4 where "w4 = g_printerr (Err_download_failed rp (message e))
      (if \<not> opt_noprogress w2 then g_print Out_clreol w2 else w2)"
    have fr4: "\<forall>q. q \<noteq> lp \<longrightarrow> fs w4 q = fs w q" and nc4: "ncalls w4 = Suc (ncalls w)"
      using fr2 nc2 by (simp_all add: w4_def)
    have "dl_sync_file_loop E lp rp attempts sl st w =
        (if g_error_matches e MEGA_ERROR MEGA_ERROR_OTHER then (False, w4)
         else dl_sync_file_loop E lp rp (attempts + 1)
                (if attempts > 0 then push_bit 1 sl else sl) False w4)"
      apply (subst dl_sync_file_loop.simps)
      using assms g x Some by (cases "0 < attempts") (simp_all add: w1_def w4_def Let_def)
    then show ?thesis using fr4 nc4 Some by (intro exI [of _ w4]) auto
  qed
qed

lemma dl_sync_file_loop_fs:
  assumes "k = nat (5 - attempts)"
    and "dl_sync_file_loop E lp rp attempts sl st w = (r, w')"
  shows "(\<forall>q. q \<noteq> lp \<longrightarrow> fs w' q = fs w q)
       \<and> ((\<forall>n. failure (get_reply E n lp rp) \<noteq> None) \<longrightarrow> attempts < 5 \<longrightarrow> \<not> r)"
  using assms
proof (induction k arbitrary: attempts sl st w)
  case 0
  then have "\<not> attempts < 5" by simp
  with "0.prems"(2) show ?case by (simp add: dl_sync_file_loop.simps)
next
  case (Suc k)
  then have lt: "attempts < 5" by simp
  from dl_sync_file_loop_unfold [OF lt, of lp w E rp sl st]
  obtain w2 where fr: "\<forall>q. q \<noteq> lp \<longrightarrow> fs w2 q = fs w q"
    and c: "case failure (get_reply E (ncalls w) lp rp) of
        None \<Rightarrow> fs w2 lp = Some G_FILE_TYPE_REGULAR
                \<and> dl_sync_file_loop E lp rp attempts sl st w = (True, w2)
      | Some e \<Rightarrow>
          (if g_error_matches e MEGA_ERROR MEGA_ERROR_OTHER
           then dl_sync_file_loop E lp rp attempts sl st w = (False, w2)
           else \<exists>sl1. dl_sync_file_loop E lp rp attempts sl st w
                        = dl_sync_file_loop E lp rp (attempts + 1) sl1 False w2)"
    by blast
  show ?case
  proof (cases "failure (get_reply E (ncalls w) lp rp)")
    case None
    then have nf: "\<not> (\<forall>n. failure (get_reply E n lp rp) \<noteq> None)" by blast
    have "w' = w2" using c None Suc.prems(2) by simp
    then show ?thesis using nf fr by blast
  next
    case (Some e)
    show ?thesis
    proof (cases "g_error_matches e MEGA_ERROR MEGA_ERROR_OTHER")
      case True
      then show ?thesis using c fr Some Suc.prems(2) by auto
    next
      case False
      then obtain sl1 where n: "dl_sync_file_loop E lp rp attempts sl st w
          = dl_sync_file_loop E lp rp (attempts + 1) sl1 False w2"
        using c Some by auto
      have "(\<forall>q. q \<noteq> lp \<longrightarrow> fs w' q = fs w2 q)
          \<and> ((\<forall>n. failure (get_reply E n lp rp) \<noteq> None) \<longrightarrow> attempts + 1 < 5 \<longrightarrow> \<not> r)"
        by (rule Suc.IH [of "attempts + 1" sl1 False w2]) (use Suc.prems n in simp_all)
      moreover have "attempts + 1 < 5 \<or> \<not> r"
      proof (cases "attempts + 1 < 5")
        case False
        then have "dl_sync_file_loop E lp rp (attempts + 1) sl1 False w2 = (False, w2)"
          by (simp add: dl_sync_file_loop.simps)
        then show ?thesis using n Suc.prems(2) by simp
      qed simp
      ultimately show ?thesis using fr by auto
    qed
  qed
qed

lemma file_step_synced:
  assumes E: "fetches_fail_only_at E bad" and m: "fs w lp = None"
  shows "synced bad [(lp, rp)] [] (at_or_under lp) w (dl_sync_file E c lp rp w)"
proof -
  define w1 where "w1 = (if \<not> opt_noprogress w then g_print (Out_F lp) w else w)"
  have fs1: "fs w1 = fs w" and nc1: "ncalls w1 = ncalls w" by (simp_all add: w1_def)
  obtain r w2 where l: "dl_sync_file_loop E lp rp 0 2000000 True w1 = (r, w2)"
    by (cases "dl_sync_file_loop E lp rp 0 2000000 True w1")
  have ex: "\<not> g_file_query_exists (fs w) lp" using m by (simp add: g_file_query_exists_def)
  have res: "fst (dl_sync_file E c lp rp w) = r" "fs (snd (dl_sync_file E c lp rp w)) = fs w2"
    using l by (simp_all add: dl_sync_file_missing [OF ex] Let_def w1_def)
  have fr: "\<forall>q. q \<noteq> lp \<longrightarrow> fs w2 q = fs w q"
    and fl: "(\<forall>n. failure (get_reply E n lp rp) \<noteq> None) \<longrightarrow> \<not> r"
    using dl_sync_file_loop_fs [OF _ l, of 5] fs1 by simp_all
  show ?thesis
  proof (cases "rp = bad")
    case True
    then have "\<not> r" using fl E by (simp add: fetches_fail_only_at_def)
    then show ?thesis using True fr res by (simp add: synced_def at_or_under_def)
  next
    case False
    then have ok: "failure (get_reply E (ncalls w1) lp rp) = None"
      using E by (simp add: fetches_fail_only_at_def)
    from dl_sync_file_loop_unfold [of 0 lp w1 E rp 2000000 True] ok l
    have "r" "fs w2 lp = Some G_FILE_TYPE_REGULAR" by auto
    then show ?thesis using False fr res by (simp add: synced_def at_or_under_def)
  qed
qed


section \<open>The walk and the local file system\<close>

lemma well_named_member:
  "well_named cs \<Longrightarrow> c \<in> set cs \<Longrightarrow> proper_name (name c) \<and> well_named_node c"
  by (induction cs) auto

lemma leaf_in_region:
  "well_named_node c \<Longrightarrow> (lp, rp') \<in> set (leaf_files f rp c) \<Longrightarrow> at_or_under f lp"
  "well_named cs \<Longrightarrow> (lp, rp') \<in> set (leaf_files_children f rp cs) \<Longrightarrow>
     \<exists>c\<in>set cs. at_or_under (g_file_get_child f (name c)) lp"
proof (induction f rp c and f rp cs arbitrary: lp rp' and lp rp'
    rule: leaf_files_leaf_files_children.induct)
  case (1 f remote_path nm ty cs)
  show ?case
  proof (cases "ty = 0")
    case True
    then show ?thesis using "1.prems" by (simp add: at_or_under_refl)
  next
    case False
    then have wn: "well_named cs" using "1.prems"(1) by simp
    from False obtain c where c: "c \<in> set cs" "at_or_under (g_file_get_child f (name c)) lp"
      using "1.IH" [OF False wn] "1.prems"(2) by auto
    have "proper_name (name c)" using well_named_member [OF wn c(1)] by simp
    then have "under f lp" using c(2) by (rule child_under)
    then show ?thesis by (simp add: at_or_under_def)
  qed
next
  case (2 f remote_path)
  then show ?case by simp
next
  case (3 f remote_path c cs)
  then show ?case by auto
qed

lemma dir_in_region:
  "well_named_node c \<Longrightarrow> d \<in> set (dir_files f c) \<Longrightarrow> at_or_under f d"
  "well_named cs \<Longrightarrow> d \<in> set (dir_files_children f cs) \<Longrightarrow>
     \<exists>c\<in>set cs. at_or_under (g_file_get_child f (name c)) d"
proof (induction f c and f cs arbitrary: d and d rule: dir_files_dir_files_children.induct)
  case (1 f nm ty cs)
  show ?case
  proof (cases "ty = 0")
    case True
    then show ?thesis using "1.prems" by simp
  next
    case False
    then have wn: "well_named cs" using "1.prems"(1) by simp
    show ?thesis
    proof (cases "d = f")
      case True
      then show ?thesis by (simp add: at_or_under_refl)
    next
      case df: False
      then obtain c where c: "c \<in> set cs" "at_or_under (g_file_get_child f (name c)) d"
        using "1.IH" [OF False wn] "1.prems"(2) False by auto
      have "proper_name (name c)" using well_named_member [OF wn c(1)] by simp
      then have "under f d" using c(2) by (rule child_under)
      then show ?thesis by (simp add: at_or_under_def)
    qed
  qed
next
  case (2 f)
  then show ?case by simp
next
  case (3 f c cs)
  then show ?case by auto
qed

lemma dl_sync_children_status:
  "dl_sync_children E cs file rp status w =
     (status \<and> fst (dl_sync_children E cs file rp True w), snd (dl_sync_children E cs file rp True w))"
  by (simp add: dl_sync_children_visit_all [where status = status]
      dl_sync_children_visit_all [where status = True])

lemma dl_sync_children_Cons:
  "dl_sync_children E (c # cs) file rp True w =
     (fst (child_step E file rp c w)
        \<and> fst (dl_sync_children E cs file rp True (snd (child_step E file rp c w))),
      snd (dl_sync_children E cs file rp True (snd (child_step E file rp c w))))"
  by (simp del: dl_sync_dir.simps dl_sync_children.simps
      add: dl_sync_children_visit_all split: prod.splits)

lemma synced_seq:
  assumes "synced bad L1 D1 R1 w res1" "synced bad L2 D2 R2 (snd res1) res2"
    and "\<forall>lp rp. (lp, rp) \<in> set L1 \<longrightarrow> \<not> R2 lp"
    and "\<forall>d. d \<in> set D1 \<longrightarrow> \<not> R2 d"
  shows "synced bad (L1 @ L2) (D1 @ D2) (\<lambda>q. R1 q \<or> R2 q) w (fst res1 \<and> fst res2, snd res2)"
  unfolding synced_def
proof (intro conjI allI impI)
  show "fst (fst res1 \<and> fst res2, snd res2) = (bad \<notin> snd ` set (L1 @ L2))"
    using assms(1,2) by (auto simp: synced_def image_Un)
next
  fix lp rp
  assume a: "(lp, rp) \<in> set (L1 @ L2) \<and> rp \<noteq> bad"
  show "fs (snd (fst res1 \<and> fst res2, snd res2)) lp = Some G_FILE_TYPE_REGULAR"
  proof (cases "(lp, rp) \<in> set L1")
    case True
    then have "fs (snd res1) lp = Some G_FILE_TYPE_REGULAR"
      using assms(1) a unfolding synced_def by blast
    moreover have "\<not> R2 lp" using assms(3) True by blast
    then have "fs (snd res2) lp = fs (snd res1) lp"
      using assms(2) unfolding synced_def by blast
    ultimately show ?thesis by simp
  next
    case False
    then have "(lp, rp) \<in> set L2" using a by simp
    then show ?thesis using assms(2) a unfolding synced_def by auto
  qed
next
  fix d
  assume a: "d \<in> set (D1 @ D2)"
  show "fs (snd (fst res1 \<and> fst res2, snd res2)) d = Some G_FILE_TYPE_DIRECTORY"
  proof (cases "d \<in> set D1")
    case True
    then have "fs (snd res1) d = Some G_FILE_TYPE_DIRECTORY"
      using assms(1) unfolding synced_def by blast
    moreover have "\<not> R2 d" using assms(4) True by blast
    then have "fs (snd res2) d = fs (snd res1) d"
      using assms(2) unfolding synced_def by blast
    ultimately show ?thesis by simp
  next
    case False
    then have "d \<in> set D2" using a by simp
    then show ?thesis using assms(2) unfolding synced_def by auto
  qed
next
  fix q
  assume "\<not> (R1 q \<or> R2 q)"
  then show "fs (snd (fst res1 \<and> fst res2, snd res2)) q = fs w q"
    using assms(1,2) unfolding synced_def by simp
qed

lemma children_synced:
  assumes E: "fetches_fail_only_at E bad"
    and IH: "\<And>c f rp w. c \<in> set cs \<Longrightarrow> well_named (children c) \<Longrightarrow> fs w f = None \<Longrightarrow>
               \<forall>q. under f q \<longrightarrow> fs w q = None \<Longrightarrow>
               synced bad (leaf_files_children f rp (children c))
                 (f # dir_files_children f (children c)) (at_or_under f) w
                 (dl_sync_dir E c f rp w)"
    and wn: "well_named cs"
    and empty: "\<forall>c\<in>set cs. \<forall>q. at_or_under (g_file_get_child d (name c)) q \<longrightarrow> fs w q = None"
  shows "synced bad (leaf_files_children d rp cs) (dir_files_children d cs)
           (\<lambda>q. \<exists>c\<in>set cs. at_or_under (g_file_get_child d (name c)) q) w
           (dl_sync_children E cs d rp True w)"
  using IH wn empty
proof (induction cs arbitrary: w)
  case Nil
  show ?case by (simp add: synced_def)
next
  case (Cons c cs)
  let ?x = "g_file_get_child d (name c)"
  let ?rx = "rp @ ''/'' @ name c"
  let ?res1 = "child_step E d rp c w"
  have nm: "proper_name (name c)" "name c \<notin> set (map name cs)" "well_named_node c" "well_named cs"
    using Cons.prems(2) by simp_all
  have x_none: "fs w ?x = None" and below_none: "\<forall>q. under ?x q \<longrightarrow> fs w q = None"
    using Cons.prems(3) by (simp_all add: at_or_under_def)
  have step: "synced bad (leaf_files ?x ?rx c) (dir_files ?x c) (at_or_under ?x) w ?res1"
  proof (cases c)
    case (Node n ty cs')
    show ?thesis
    proof (cases "ty = 0")
      case True
      then show ?thesis
        using file_step_synced [OF E x_none, of ?rx c] Node by (simp add: child_step_def)
    next
      case False
      have "well_named (children c)" using nm(3) Node False by simp
      then have "synced bad (leaf_files_children ?x ?rx (children c))
          (?x # dir_files_children ?x (children c)) (at_or_under ?x) w
          (dl_sync_dir E c ?x ?rx w)"
        using Cons.prems(1) [of c w ?x ?rx] x_none below_none by simp
      then show ?thesis using Node False by (simp add: child_step_def)
    qed
  qed
  have disj: "\<not> at_or_under (g_file_get_child d (name c')) q"
    if "c' \<in> set cs" "at_or_under ?x q" for c' q
  proof -
    have "proper_name (name c')" using well_named_member [OF nm(4) that(1)] by simp
    moreover have "name c \<noteq> name c'" using nm(2) that(1) by auto
    ultimately show ?thesis using regions_disjoint [OF nm(1) _ _ that(2)] by blast
  qed
  have frame1: "\<forall>q. \<not> at_or_under ?x q \<longrightarrow> fs (snd ?res1) q = fs w q"
    using step by (simp add: synced_def)
  have rest: "synced bad (leaf_files_children d rp cs) (dir_files_children d cs)
      (\<lambda>q. \<exists>c\<in>set cs. at_or_under (g_file_get_child d (name c)) q) (snd ?res1)
      (dl_sync_children E cs d rp True (snd ?res1))"
  proof (rule Cons.IH)
    show "synced bad (leaf_files_children f r (children c'))
        (f # dir_files_children f (children c')) (at_or_under f) w'
        (dl_sync_dir E c' f r w')"
      if "c' \<in> set cs" "well_named (children c')" "fs w' f = None"
        "\<forall>q. under f q \<longrightarrow> fs w' q = None" for c' f r w'
      using Cons.prems(1) [of c' w' f r] that by simp
    show "well_named cs" by (rule nm(4))
    show "\<forall>c'\<in>set cs. \<forall>q. at_or_under (g_file_get_child d (name c')) q \<longrightarrow> fs (snd ?res1) q = None"
    proof (intro ballI allI impI)
      fix c' q
      assume c': "c' \<in> set cs" and q: "at_or_under (g_file_get_child d (name c')) q"
      have "\<not> at_or_under ?x q" using disj [OF c'] q by blast
      then have "fs (snd ?res1) q = fs w q" using frame1 by simp
      also have "\<dots> = None" using Cons.prems(3) c' q by simp
      finally show "fs (snd ?res1) q = None" .
    qed
  qed
  have sep: "\<forall>lp r. (lp, r) \<in> set (leaf_files ?x ?rx c)
      \<longrightarrow> \<not> (\<exists>c'\<in>set cs. at_or_under (g_file_get_child d (name c')) lp)"
    using leaf_in_region(1) [OF nm(3)] disj by blast
  have sepd: "\<forall>p. p \<in> set (dir_files ?x c)
      \<longrightarrow> \<not> (\<exists>c'\<in>set cs. at_or_under (g_file_get_child d (name c')) p)"
    using dir_in_region(1) [OF nm(3)] disj by blast
  have "synced bad (leaf_files ?x ?rx c @ leaf_files_children d rp cs)
      (dir_files ?x c @ dir_files_children d cs)
      (\<lambda>q. at_or_under ?x q \<or> (\<exists>c'\<in>set cs. at_or_under (g_file_get_child d (name c')) q)) w
      (fst ?res1 \<and> fst (dl_sync_children E cs d rp True (snd ?res1)),
       snd (dl_sync_children E cs d rp True (snd ?res1)))"
    by (rule synced_seq [OF step rest sep sepd])
  then show ?case
    by (simp del: dl_sync_dir.simps dl_sync_children.simps add: dl_sync_children_Cons)
qed

lemma dir_synced:
  assumes E: "fetches_fail_only_at E bad"
  shows "well_named (children node) \<Longrightarrow>
     fs w d = None \<or> fs w d = Some G_FILE_TYPE_DIRECTORY \<Longrightarrow>
     \<forall>q. under d q \<longrightarrow> fs w q = None \<Longrightarrow>
     synced bad (leaf_files_children d rp (children node))
       (d # dir_files_children d (children node)) (at_or_under d) w
       (dl_sync_dir E node d rp w)"
proof (induction node arbitrary: d rp w)
  case (Node nm ty cs)
  define w1 where "w1 = (if fs w d = None
      then w\<lparr>trace := trace w @ (if \<not> opt_noprogress w then [Print (Out_D d)] else [])
                        @ [MakeDirectory d],
             fs := (fs w)(d \<mapsto> G_FILE_TYPE_DIRECTORY)\<rparr>
      else w)"
  have wn: "well_named cs" using Node.prems(1) by simp
  have mk: "make_directory_error E d = None" using E by (simp add: fetches_fail_only_at_def)
  have run: "dl_sync_dir E (Node nm ty cs) d rp w = dl_sync_children E cs d rp True w1"
  proof (cases "fs w d")
    case None
    then show ?thesis using directory_step_created [OF None mk] by (simp add: w1_def)
  next
    case (Some t)
    then have "fs w d = Some G_FILE_TYPE_DIRECTORY" using Node.prems(2) by simp
    then show ?thesis using directory_step_directory by (simp add: w1_def)
  qed
  have fs1: "\<forall>q. q \<noteq> d \<longrightarrow> fs w1 q = fs w q" by (simp add: w1_def)
  have d1: "fs w1 d = Some G_FILE_TYPE_DIRECTORY" using Node.prems(2) by (auto simp: w1_def)
  have below: "under d q" if "c \<in> set cs" "at_or_under (g_file_get_child d (name c)) q" for c q
    using child_under [OF _ that(2)] well_named_member [OF wn that(1)] by simp
  have empty: "\<forall>c\<in>set cs. \<forall>q. at_or_under (g_file_get_child d (name c)) q \<longrightarrow> fs w1 q = None"
  proof (intro ballI allI impI)
    fix c q
    assume "c \<in> set cs" "at_or_under (g_file_get_child d (name c)) q"
    then have u: "under d q" by (rule below)
    then have "fs w1 q = fs w q" using fs1 under_neq by blast
    then show "fs w1 q = None" using Node.prems(3) u by simp
  qed
  have ch: "synced bad (leaf_files_children d rp cs) (dir_files_children d cs)
           (\<lambda>q. \<exists>c\<in>set cs. at_or_under (g_file_get_child d (name c)) q) w1
           (dl_sync_children E cs d rp True w1)"
  proof (rule children_synced [OF E _ wn empty])
    show "synced bad (leaf_files_children f r (children c))
        (f # dir_files_children f (children c)) (at_or_under f) w'
        (dl_sync_dir E c f r w')"
      if "c \<in> set cs" "well_named (children c)" "fs w' f = None"
        "\<forall>q. under f q \<longrightarrow> fs w' q = None" for c f r w'
      using Node.IH [OF that(1,2)] that(3,4) by simp
  qed
  have out: "\<not> (\<exists>c\<in>set cs. at_or_under (g_file_get_child d (name c)) q)"
    if "\<not> under d q" for q
    using that below by blast
  have "\<not> under d d" using under_neq by blast
  then have dd: "fs (snd (dl_sync_children E cs d rp True w1)) d = Some G_FILE_TYPE_DIRECTORY"
    using ch out [of d] d1 unfolding synced_def by simp
  have fr: "fs (snd (dl_sync_children E cs d rp True w1)) q = fs w q"
    if "\<not> at_or_under d q" for q
  proof -
    have "\<not> under d q" "q \<noteq> d" using that by (simp_all add: at_or_under_def)
    then have "fs (snd (dl_sync_children E cs d rp True w1)) q = fs w1 q"
      using ch out [of q] unfolding synced_def by simp
    then show ?thesis using fs1 \<open>q \<noteq> d\<close> by simp
  qed
  show ?case
    unfolding run synced_def
    using ch dd fr by (simp add: synced_def)
qed

lemma walk_with_dot_name:
  "dl_sync_dir (env_tree (Node ''r'' 1 []) ''none'')
     (Node ''r'' 1 [Node ''.'' 1 [Node ''a'' 0 []], Node ''a'' 0 []]) ''/tmp/vd'' ''/r''
     (world0\<lparr>fs := [''/tmp/vd'' \<mapsto> G_FILE_TYPE_DIRECTORY], opt_noprogress := True\<rparr>) =
   (False,
    world0\<lparr>fs := [''/tmp/vd'' \<mapsto> G_FILE_TYPE_DIRECTORY, ''/tmp/vd/a'' \<mapsto> G_FILE_TYPE_REGULAR],
           opt_noprogress := True, cur_file := Some ''/r/./a'', ncalls := 1,
           trace := [SessionGet ''/tmp/vd/a'' ''/r/./a'',
                     PrintErr (Err_file_exists ''/tmp/vd/a'')]\<rparr>)"
  by (simp add: model_defs example_defs)

section \<open>Aggregate failure propagation\<close>

text \<open>
  C7. \<open>dl_sync_dir\<close> first takes its own directory step: it creates the directory when
  nothing is at the path, and otherwise requires a directory there. When that step fails
  the result is false and no child is visited. When it passes, the walk visits every
  child in the order of the session, whatever the results of the earlier children: there
  is one step result per child, and the result of the directory is the conjunction of
  the results of all the steps. For a tree whose names are single path components,
  different among the children of a directory, synchronised into a canonical path that
  is missing or an empty directory, in an environment where directories can be created
  and exactly the fetches of the remote path \<open>bad\<close> fail: the walk succeeds exactly when
  \<open>bad\<close> is not a leaf, every other leaf is a regular file afterwards, and the
  destination and every directory of the tree are directories afterwards. So when
  exactly one of the N leaves fails, the walk returns false and the other N - 1 leaves are
  materialised.
\<close>

theorem aggregate_failure:
  "dl_sync_dir E (Node nm ty cs) file rp w =
     (case fs w file of
        None \<Rightarrow>
          (case make_directory_error E file of
             None \<Rightarrow>
               all_steps E file rp cs
                 (w\<lparr>trace := trace w @ (if \<not> opt_noprogress w then [Print (Out_D file)] else [])
                               @ [MakeDirectory file],
                    fs := (fs w)(file \<mapsto> G_FILE_TYPE_DIRECTORY)\<rparr>)
           | Some e \<Rightarrow>
               (False,
                w\<lparr>trace := trace w @ (if \<not> opt_noprogress w then [Print (Out_D file)] else [])
                             @ [MakeDirectory file,
                                PrintErr (Err_cant_create_dir file (message e))]\<rparr>))
      | Some t \<Rightarrow>
          if t = G_FILE_TYPE_DIRECTORY then all_steps E file rp cs w
          else (False, w\<lparr>trace := trace w @ [PrintErr (Err_cant_create_dir_file_exists file)]\<rparr>))
   \<and> length (fst (visit_all E file rp cs w1)) = length cs
   \<and> (fetches_fail_only_at E bad \<and> well_named cs \<and> canonical_path file
        \<and> (fs w file = None \<or> fs w file = Some G_FILE_TYPE_DIRECTORY)
        \<and> (\<forall>q. under file q \<longrightarrow> fs w q = None)
      \<longrightarrow> fst (dl_sync_dir E (Node nm ty cs) file rp w)
            = (bad \<notin> snd ` set (leaf_files_children file rp cs))
        \<and> list_all (\<lambda>(lp, rp'). fs (snd (dl_sync_dir E (Node nm ty cs) file rp w)) lp
                                  = Some G_FILE_TYPE_REGULAR)
            (filter (\<lambda>(lp, rp'). rp' \<noteq> bad) (leaf_files_children file rp cs))
        \<and> list_all (\<lambda>d. fs (snd (dl_sync_dir E (Node nm ty cs) file rp w)) d
                           = Some G_FILE_TYPE_DIRECTORY)
            (file # dir_files_children file cs))
   \<and> (fetches_fail_only_at E bad \<and> well_named cs \<and> canonical_path file
        \<and> (fs w file = None \<or> fs w file = Some G_FILE_TYPE_DIRECTORY)
        \<and> (\<forall>q. under file q \<longrightarrow> fs w q = None)
        \<and> length (filter (\<lambda>(lp, rp'). rp' = bad) (leaf_files_children file rp cs)) = 1
      \<longrightarrow> \<not> fst (dl_sync_dir E (Node nm ty cs) file rp w)
        \<and> length (filter (\<lambda>(lp, rp'). rp' \<noteq> bad) (leaf_files_children file rp cs))
            = length (leaf_files_children file rp cs) - 1
        \<and> list_all (\<lambda>(lp, rp'). fs (snd (dl_sync_dir E (Node nm ty cs) file rp w)) lp
                                  = Some G_FILE_TYPE_REGULAR)
            (filter (\<lambda>(lp, rp'). rp' \<noteq> bad) (leaf_files_children file rp cs))
        \<and> list_all (\<lambda>d. fs (snd (dl_sync_dir E (Node nm ty cs) file rp w)) d
                           = Some G_FILE_TYPE_DIRECTORY)
            (file # dir_files_children file cs))"
proof -
  let ?L = "leaf_files_children file rp cs"
  let ?D = "file # dir_files_children file cs"
  let ?res = "dl_sync_dir E (Node nm ty cs) file rp w"
  have walk: "dl_sync_children E cs file rp True w' = all_steps E file rp cs w'" for w'
    by (simp add: dl_sync_children_visit_all all_steps_def)
  have agg: "?res =
     (case fs w file of
        None \<Rightarrow>
          (case make_directory_error E file of
             None \<Rightarrow>
               all_steps E file rp cs
                 (w\<lparr>trace := trace w @ (if \<not> opt_noprogress w then [Print (Out_D file)] else [])
                               @ [MakeDirectory file],
                    fs := (fs w)(file \<mapsto> G_FILE_TYPE_DIRECTORY)\<rparr>)
           | Some e \<Rightarrow>
               (False,
                w\<lparr>trace := trace w @ (if \<not> opt_noprogress w then [Print (Out_D file)] else [])
                             @ [MakeDirectory file,
                                PrintErr (Err_cant_create_dir file (message e))]\<rparr>))
      | Some t \<Rightarrow>
          if t = G_FILE_TYPE_DIRECTORY then all_steps E file rp cs w
          else (False, w\<lparr>trace := trace w @ [PrintErr (Err_cant_create_dir_file_exists file)]\<rparr>))"
  proof (cases "fs w file")
    case None
    show ?thesis
    proof (cases "make_directory_error E file")
      case n: None
      show ?thesis
        unfolding directory_step_created [OF None n] walk using None n by simp
    next
      case (Some e)
      show ?thesis
        unfolding directory_step_create_error [OF None Some] using None Some by simp
    qed
  next
    case (Some t)
    show ?thesis
    proof (cases "t = G_FILE_TYPE_DIRECTORY")
      case True
      then have d: "fs w file = Some G_FILE_TYPE_DIRECTORY" using Some by simp
      show ?thesis
        unfolding directory_step_directory [OF d] walk using d by simp
    next
      case False
      show ?thesis
        unfolding directory_step_not_directory [OF Some False] using Some False by simp
    qed
  qed
  have general: "fst ?res = (bad \<notin> snd ` set ?L)
      \<and> list_all (\<lambda>(lp, rp'). fs (snd ?res) lp = Some G_FILE_TYPE_REGULAR)
           (filter (\<lambda>(lp, rp'). rp' \<noteq> bad) ?L)
      \<and> list_all (\<lambda>d. fs (snd ?res) d = Some G_FILE_TYPE_DIRECTORY) ?D"
    if h: "fetches_fail_only_at E bad \<and> well_named cs \<and> canonical_path file
        \<and> (fs w file = None \<or> fs w file = Some G_FILE_TYPE_DIRECTORY)
        \<and> (\<forall>q. under file q \<longrightarrow> fs w q = None)"
  proof -
    have "synced bad (leaf_files_children file rp (children (Node nm ty cs)))
        (file # dir_files_children file (children (Node nm ty cs))) (at_or_under file) w ?res"
      by (rule dir_synced) (use h in simp_all)
    then show ?thesis
      unfolding synced_def by (auto simp: list_all_iff)
  qed
  have count: "\<not> fst ?res \<and> length (filter (\<lambda>(lp, rp'). rp' \<noteq> bad) ?L) = length ?L - 1"
    if h: "fetches_fail_only_at E bad \<and> well_named cs \<and> canonical_path file
        \<and> (fs w file = None \<or> fs w file = Some G_FILE_TYPE_DIRECTORY)
        \<and> (\<forall>q. under file q \<longrightarrow> fs w q = None)"
      and one: "length (filter (\<lambda>(lp, rp'). rp' = bad) ?L) = 1"
  proof -
    have "filter (\<lambda>(lp, rp'). rp' = bad) ?L \<noteq> []" using one by auto
    then obtain x where "x \<in> set ?L" "snd x = bad"
      by (auto simp: filter_empty_conv)
    then have "bad \<in> snd ` set ?L" by force
    then have nres: "\<not> fst ?res" using general [OF h] by simp
    have e: "(\<lambda>x. \<not> (case x of (lp, rp') \<Rightarrow> rp' = bad)) = (\<lambda>(lp, rp'). rp' \<noteq> bad)"
      by auto
    have "length (filter (\<lambda>(lp, rp'). rp' = bad) ?L)
        + length (filter (\<lambda>x. \<not> (case x of (lp, rp') \<Rightarrow> rp' = bad)) ?L) = length ?L"
      by (rule sum_length_filter_compl)
    then have "1 + length (filter (\<lambda>(lp, rp'). rp' \<noteq> bad) ?L) = length ?L"
      unfolding e one .
    then have "length (filter (\<lambda>(lp, rp'). rp' \<noteq> bad) ?L) = length ?L - 1"
      by linarith
    then show ?thesis using nres by simp
  qed
  show ?thesis
    using agg length_visit_all general count by blast
qed

theorem aggregate_failure_witness:
  "\<not> fst (dl_sync_dir
            (env_tree (Node ''root'' 1 [Node ''a'' 0 [], Node ''d'' 1 [Node ''b'' 0 [], Node ''c'' 0 []]])
               ''/root/d/b'')
            (Node ''root'' 1 [Node ''a'' 0 [], Node ''d'' 1 [Node ''b'' 0 [], Node ''c'' 0 []]])
            ''/tmp/vd'' ''/root'' world0)
   \<and> fs (snd (dl_sync_dir
            (env_tree (Node ''root'' 1 [Node ''a'' 0 [], Node ''d'' 1 [Node ''b'' 0 [], Node ''c'' 0 []]])
               ''/root/d/b'')
            (Node ''root'' 1 [Node ''a'' 0 [], Node ''d'' 1 [Node ''b'' 0 [], Node ''c'' 0 []]])
            ''/tmp/vd'' ''/root'' world0)) ''/tmp/vd/a'' = Some G_FILE_TYPE_REGULAR
   \<and> fs (snd (dl_sync_dir
            (env_tree (Node ''root'' 1 [Node ''a'' 0 [], Node ''d'' 1 [Node ''b'' 0 [], Node ''c'' 0 []]])
               ''/root/d/b'')
            (Node ''root'' 1 [Node ''a'' 0 [], Node ''d'' 1 [Node ''b'' 0 [], Node ''c'' 0 []]])
            ''/tmp/vd'' ''/root'' world0)) ''/tmp/vd/d/c'' = Some G_FILE_TYPE_REGULAR
   \<and> fs (snd (dl_sync_dir
            (env_tree (Node ''root'' 1 [Node ''a'' 0 [], Node ''d'' 1 [Node ''b'' 0 [], Node ''c'' 0 []]])
               ''/root/d/b'')
            (Node ''root'' 1 [Node ''a'' 0 [], Node ''d'' 1 [Node ''b'' 0 [], Node ''c'' 0 []]])
            ''/tmp/vd'' ''/root'' world0)) ''/tmp/vd'' = Some G_FILE_TYPE_DIRECTORY
   \<and> fs (snd (dl_sync_dir
            (env_tree (Node ''root'' 1 [Node ''a'' 0 [], Node ''d'' 1 [Node ''b'' 0 [], Node ''c'' 0 []]])
               ''/root/d/b'')
            (Node ''root'' 1 [Node ''a'' 0 [], Node ''d'' 1 [Node ''b'' 0 [], Node ''c'' 0 []]])
            ''/tmp/vd'' ''/root'' world0)) ''/tmp/vd/d'' = Some G_FILE_TYPE_DIRECTORY"
proof -
  let ?cs = "[Node ''a'' 0 [], Node ''d'' 1 [Node ''b'' 0 [], Node ''c'' 0 []]]"
  let ?E = "env_tree (Node ''root'' 1 ?cs) ''/root/d/b''"
  have L: "leaf_files_children ''/tmp/vd'' ''/root'' ?cs =
      [(''/tmp/vd/a'', ''/root/a''), (''/tmp/vd/d/b'', ''/root/d/b''), (''/tmp/vd/d/c'', ''/root/d/c'')]"
    by (simp add: g_file_get_child_def path_child_def)
  have D: "dir_files_children ''/tmp/vd'' ?cs = [''/tmp/vd/d'']"
    by (simp add: g_file_get_child_def path_child_def)
  have u: "\<forall>q. under ''/tmp/vd'' q \<longrightarrow> fs world0 q = None"
    by (auto simp: under_def as_dir_def world0_def)
  have h: "fetches_fail_only_at ?E ''/root/d/b'' \<and> well_named ?cs \<and> canonical_path ''/tmp/vd''
        \<and> (fs world0 ''/tmp/vd'' = None \<or> fs world0 ''/tmp/vd'' = Some G_FILE_TYPE_DIRECTORY)
        \<and> (\<forall>q. under ''/tmp/vd'' q \<longrightarrow> fs world0 q = None)
        \<and> length (filter (\<lambda>(lp, rp'). rp' = ''/root/d/b'')
            (leaf_files_children ''/tmp/vd'' ''/root'' ?cs)) = 1"
    unfolding L using u
    by (simp add: fetches_fail_only_at_def env_tree_def reply_ok_def reply_fail_def
        world0_def proper_name_def canonical_path_def)
  let ?res = "dl_sync_dir ?E (Node ''root'' 1 ?cs) ''/tmp/vd'' ''/root'' world0"
  have "\<not> fst ?res
      \<and> list_all (\<lambda>(lp, rp'). fs (snd ?res) lp = Some G_FILE_TYPE_REGULAR)
          (filter (\<lambda>(lp, rp'). rp' \<noteq> ''/root/d/b'') (leaf_files_children ''/tmp/vd'' ''/root'' ?cs))
      \<and> list_all (\<lambda>d. fs (snd ?res) d = Some G_FILE_TYPE_DIRECTORY)
          (''/tmp/vd'' # dir_files_children ''/tmp/vd'' ?cs)"
    using aggregate_failure [of ?E "''root''" 1 ?cs "''/tmp/vd''" "''/root''" world0 world0 "''/root/d/b''"] h
    by blast
  then show ?thesis
    unfolding L D by simp
qed

section \<open>Characters\<close>

lemma char_eq_code: "(c = d) = ((of_char c :: nat) = of_char d)"
  by simp

lemma char_of_eq_nat: "(char_of (n::nat) = c) = (n mod 256 = (of_char c :: nat))"
proof
  assume "char_of n = c"
  then have "of_char (char_of n) = (of_char c :: nat)" by simp
  then show "n mod 256 = of_char c" by simp
next
  assume "n mod 256 = of_char c"
  then have "char_of (n mod 256) = char_of (of_char c :: nat)" by simp
  then show "char_of n = c" by simp
qed

lemma of_char_ascii_tolower:
  "(of_char (ascii_tolower c) :: nat) =
     (if (65::nat) \<le> of_char c \<and> of_char c \<le> (90::nat) then of_char c + 32 else of_char c)"
proof -
  have "(of_char c :: nat) < 256" by simp
  then have "(of_char c + 32) mod 256 = (of_char c + 32 :: nat)"
    if "(of_char c :: nat) \<le> 90" using that by simp
  then show ?thesis by (simp add: ascii_tolower_def)
qed

lemma of_char_ascii_toupper:
  "(of_char (ascii_toupper c) :: nat) =
     (if (97::nat) \<le> of_char c \<and> of_char c \<le> (122::nat) then of_char c - 32 else of_char c)"
proof -
  have "(of_char c :: nat) < 256" by simp
  then have "(of_char c - 32 :: nat) < 256" by arith
  then have "(of_char c - 32) mod 256 = (of_char c - 32 :: nat)" by (rule mod_less)
  then show ?thesis by (simp add: ascii_toupper_def)
qed

lemma ascii_tolower_upper [simp]: "ascii_tolower (ascii_toupper c) = ascii_tolower c"
  by (rule of_char_eqI [where ?'a = nat])
     (auto simp: of_char_ascii_tolower of_char_ascii_toupper)

lemma ascii_tolower_fixed:
  "ascii_tolower c = d \<Longrightarrow> \<not> ((97::nat) \<le> of_char d \<and> of_char d \<le> (122::nat)) \<Longrightarrow> c = d"
  by (rule of_char_eqI [where ?'a = nat], drule arg_cong [where f = "of_char :: char \<Rightarrow> nat"])
     (auto simp: of_char_ascii_tolower split: if_splits)

lemma of_char_not_wide [simp]:
  "(of_char c :: nat) \<noteq> 383" "(of_char c :: nat) \<noteq> 8490"
proof -
  have "(of_char c :: nat) < 256" by simp
  then show "(of_char c :: nat) \<noteq> 383" "(of_char c :: nat) \<noteq> 8490" by linarith+
qed

lemma fold_letter_of_char: "fold_letter (of_char c) = of_char (ascii_tolower c)"
  by (auto simp: fold_letter_def of_char_ascii_tolower)

lemma lit_char_fold: "lit_char True c cp = (fold_letter cp = of_char (ascii_tolower c))"
  by (auto simp: lit_char_def case_variants_def fold_letter_def of_char_ascii_tolower)

lemma lit_chars_fold:
  "list_all2 (lit_char True) l cps
     = (map fold_letter cps = map (\<lambda>c. of_char (ascii_tolower c)) l)"
proof (induction l arbitrary: cps)
  case Nil
  show ?case by auto
next
  case (Cons c l)
  show ?case
  proof (cases cps)
    case Nil
    then show ?thesis by simp
  next
    case (Cons x xs)
    have "list_all2 (lit_char True) (c # l) (x # xs)
        = (lit_char True c x \<and> list_all2 (lit_char True) l xs)" by simp
    also have "\<dots> = (fold_letter x = of_char (ascii_tolower c)
        \<and> map fold_letter xs = map (\<lambda>c. of_char (ascii_tolower c)) l)"
      unfolding Cons.IH lit_char_fold ..
    finally show ?thesis unfolding Cons by simp
  qed
qed

lemma in_class_token: "in_class True token_class cp = alphabet_char cp"
  by (auto simp: in_class_def token_class_def case_variants_def alphabet_char_def)

lemma alphabet_char_of_char: "alphabet_char (of_char c) = in_alphabet c"
  by (auto simp: alphabet_char_def in_alphabet_def char_eq_code [of c])

lemma case_variants_folded: "set (case_variants cp) = set (case_variants (fold_letter cp))"
  by (auto simp: case_variants_def fold_letter_def)

lemma case_variants_fold:
  assumes "fold_letter cp = fold_letter cp'"
  shows "set (case_variants cp) = set (case_variants cp')"
  using case_variants_folded [of cp] case_variants_folded [of cp'] assms by simp


section \<open>UTF-8 text\<close>

lemma utf8_decode_Nil_iff: "utf8_decode s = Some [] \<longleftrightarrow> s = []"
  by (cases s) (auto split: if_splits list.splits simp: Let_def)

lemma utf8_decode_ConsD:
  assumes "utf8_decode s = Some (c # cs)"
  shows "\<exists>r. s = snd c @ r \<and> utf8_decode r = Some cs \<and> utf8_decode (snd c) = Some [c]"
proof (cases s)
  case Nil
  then show ?thesis using assms by simp
next
  case (Cons b t)
  show ?thesis
    using assms unfolding Cons
    by (auto split: if_splits list.splits simp: Let_def)
qed

lemma utf8_decode_char_append:
  assumes "utf8_decode bs = Some [c]"
  shows "utf8_decode (bs @ r) = map_option ((#) c) (utf8_decode r)"
proof (cases bs)
  case Nil
  then show ?thesis using assms by simp
next
  case (Cons b t)
  show ?thesis
    using assms unfolding Cons
    by (auto split: if_splits list.splits simp: Let_def utf8_decode_Nil_iff)
qed

lemma utf8_decode_wf:
  "utf8_decode s = Some cs \<Longrightarrow>
     concat (map snd cs) = s \<and> (\<forall>c\<in>set cs. utf8_decode (snd c) = Some [c])"
proof (induction cs arbitrary: s)
  case Nil
  then show ?case by (simp add: utf8_decode_Nil_iff)
next
  case (Cons c cs)
  from utf8_decode_ConsD [OF Cons.prems]
  obtain r where r: "s = snd c @ r" "utf8_decode r = Some cs" "utf8_decode (snd c) = Some [c]"
    by blast
  show ?case using Cons.IH [OF r(2)] r(1,3) by simp
qed

lemma utf8_decode_chars:
  "\<forall>c\<in>set cs. utf8_decode (snd c) = Some [c] \<Longrightarrow>
     utf8_decode (concat (map snd cs) @ r) = map_option ((@) cs) (utf8_decode r)"
proof (induction cs)
  case Nil
  show ?case by (simp add: option.map_ident)
next
  case (Cons c cs)
  have c: "utf8_decode (snd c) = Some [c]" using Cons.prems by simp
  have "utf8_decode (concat (map snd (c # cs)) @ r)
      = map_option ((#) c) (utf8_decode (concat (map snd cs) @ r))"
    using utf8_decode_char_append [OF c, of "concat (map snd cs) @ r"] by simp
  also have "\<dots> = map_option ((#) c) (map_option ((@) cs) (utf8_decode r))"
    using Cons.IH Cons.prems by simp
  also have "\<dots> = map_option ((@) (c # cs)) (utf8_decode r)"
    by (cases "utf8_decode r") simp_all
  finally show ?case .
qed

lemma utf8_decode_sub:
  "\<forall>c\<in>set cs. utf8_decode (snd c) = Some [c] \<Longrightarrow> utf8_decode (concat (map snd cs)) = Some cs"
  using utf8_decode_chars [of cs "[]"] by simp

lemma utf8_decode_append:
  assumes "utf8_decode a = Some A"
  shows "utf8_decode (a @ b) = map_option ((@) A) (utf8_decode b)"
  using utf8_decode_wf [OF assms] utf8_decode_chars [of A b] by simp

lemma utf8_decode_ascii_char:
  assumes "utf8_decode bs = Some [c]" "fst c < 128"
  shows "bs = [char_of (fst c)] \<and> snd c = bs"
proof (cases bs)
  case Nil
  then show ?thesis using assms by simp
next
  case (Cons b t)
  show ?thesis
    using assms unfolding Cons
    by (auto split: if_splits list.splits simp: Let_def utf8_decode_Nil_iff utf8_tail_def)
qed

lemma utf8_decode_ascii:
  "list_all (\<lambda>c. (of_char c :: nat) < 128) s \<Longrightarrow>
     utf8_decode s = Some (map (\<lambda>c. (of_char c, [c])) s)"
  by (induction s) simp_all


section \<open>The matcher\<close>

lemma lit_at_append:
  "list_all2 (lit_char cl) l (map fst a) \<Longrightarrow> lit_at cl l (a @ rest)"
proof -
  assume m: "list_all2 (lit_char cl) l (map fst a)"
  then have "length l = length a" using list_all2_lengthD by fastforce
  then show ?thesis using m by (simp add: lit_at_def)
qed

lemma lit_atE:
  assumes "lit_at cl l s"
  obtains a rest where "s = a @ rest" "list_all2 (lit_char cl) l (map fst a)"
    "rest = drop (length l) s"
proof
  show "s = take (length l) s @ drop (length l) s" by simp
  show "list_all2 (lit_char cl) l (map fst (take (length l) s))"
    using assms by (simp add: lit_at_def)
  show "drop (length l) s = drop (length l) s" ..
qed

lemma rx_run_Lit:
  assumes "list_all2 (lit_char cl) l (map fst a)"
  shows "rx_run cl (Lit l # r) pos (a @ rest) caps = rx_run cl r (pos + length l) rest caps"
proof -
  have "length l = length a" using assms list_all2_lengthD by fastforce
  then show ?thesis using lit_at_append [OF assms] by simp
qed

lemma rx_run_Opt_taken:
  assumes "list_all2 (lit_char cl) l (map fst a)"
    and "rx_run cl r (pos + length l) rest caps = Some m"
  shows "rx_run cl (Opt l # r) pos (a @ rest) caps = Some m"
proof -
  have "length l = length a" using assms(1) list_all2_lengthD by fastforce
  then show ?thesis using lit_at_append [OF assms(1)] assms(2) by simp
qed

lemma rx_run_Opt_skipped:
  "\<not> lit_at cl l s \<Longrightarrow> rx_run cl (Opt l # r) pos s caps = rx_run cl r pos s caps"
  by simp

lemma rx_run_Cap:
  assumes "length a = n" "list_all (\<lambda>c. in_class cl ranges (fst c)) a"
  shows "rx_run cl (Cap ranges n # r) pos (a @ rest) caps
           = rx_run cl r (pos + n) rest (caps @ [concat (map snd a)])"
  using assms by simp

lemma rx_run_LitE:
  assumes "rx_run cl (Lit l # r) pos s caps = Some m"
  obtains a rest where "s = a @ rest" "list_all2 (lit_char cl) l (map fst a)"
    "rx_run cl r (pos + length l) rest caps = Some m"
proof -
  have l: "lit_at cl l s" using assms by (simp split: if_splits)
  then have r: "rx_run cl r (pos + length l) (drop (length l) s) caps = Some m"
    using assms by simp
  from l obtain a rest where "s = a @ rest" "list_all2 (lit_char cl) l (map fst a)"
    "rest = drop (length l) s" by (rule lit_atE)
  then show ?thesis using r that by simp
qed

lemma rx_run_OptE:
  assumes "rx_run cl (Opt l # r) pos s caps = Some m"
  obtains (taken) a rest where "s = a @ rest" "list_all2 (lit_char cl) l (map fst a)"
    "rx_run cl r (pos + length l) rest caps = Some m"
  | (skipped) "rx_run cl r pos s caps = Some m"
proof (cases "lit_at cl l s \<and> rx_run cl r (pos + length l) (drop (length l) s) caps \<noteq> None")
  case True
  then have r: "rx_run cl r (pos + length l) (drop (length l) s) caps = Some m"
    using assms by auto
  from True obtain a rest where "s = a @ rest" "list_all2 (lit_char cl) l (map fst a)"
    "rest = drop (length l) s" by (auto elim: lit_atE)
  then show ?thesis using r taken by simp
next
  case False
  then have "rx_run cl r pos s caps = Some m"
    using assms by (auto split: if_splits option.splits)
  then show ?thesis by (rule skipped)
qed

lemma rx_run_CapE:
  assumes "rx_run cl (Cap ranges n # r) pos s caps = Some m"
  obtains a rest where "s = a @ rest" "length a = n"
    "list_all (\<lambda>c. in_class cl ranges (fst c)) a"
    "rx_run cl r (pos + n) rest (caps @ [concat (map snd a)]) = Some m"
proof -
  have c: "n \<le> length s" "list_all (\<lambda>c. in_class cl ranges (fst c)) (take n s)"
    and r: "rx_run cl r (pos + n) (drop n s) (caps @ [concat (map snd (take n s))]) = Some m"
    using assms by (simp_all split: if_splits)
  show ?thesis
    by (rule that [of "take n s" "drop n s"]) (use c r in simp_all)
qed

declare rx_search.simps [simp del]

lemma rx_search_Bol:
  "0 < pos \<Longrightarrow> rx_search cl (Bol # r) pos s = None"
proof (induction s arbitrary: pos)
  case Nil
  then show ?case by (subst rx_search.simps) simp
next
  case (Cons c t)
  then show ?case by (subst rx_search.simps) simp
qed

lemma rx_search_anchored:
  "rx_search cl (Bol # r) 0 s = rx_run cl (Bol # r) 0 s []"
proof (cases "rx_run cl (Bol # r) 0 s []")
  case None
  then show ?thesis
    by (subst rx_search.simps) (simp add: rx_search_Bol split: list.splits)
next
  case (Some m)
  then show ?thesis by (subst rx_search.simps) simp
qed

lemma rx_run_pos:
  "Bol \<notin> set r \<Longrightarrow> rx_run cl r pos s caps = rx_run cl r 0 s caps"
proof (induction r arbitrary: pos s caps)
  case Nil
  show ?case by simp
next
  case (Cons i r)
  then have IH: "rx_run cl r q t c = rx_run cl r 0 t c" for q t c by simp
  show ?case
  proof (cases i)
    case Bol
    then show ?thesis using Cons.prems by simp
  next
    case Eol
    then show ?thesis using IH [of pos] by simp
  next
    case (Lit l)
    then show ?thesis using IH [of "pos + length l"] IH [of "0 + length l"] by simp
  next
    case (Opt l)
    then show ?thesis using IH [of "pos + length l"] IH [of "0 + length l"] IH [of pos]
      by (simp cong: option.case_cong)
  next
    case (Cap ranges n)
    then show ?thesis using IH [of "pos + n"] IH [of "0 + n"] by simp
  qed
qed

lemma rx_run_Lit0E:
  assumes "rx_run True (Lit l # r) pos s caps = Some m" "Bol \<notin> set r"
  obtains a rest where "s = a @ rest"
    "map (\<lambda>c. fold_letter (fst c)) a = map (\<lambda>c. of_char (ascii_tolower c)) l"
    "rx_run True r 0 rest caps = Some m"
proof -
  from assms(1) obtain a rest where "s = a @ rest"
      "list_all2 (lit_char True) l (map fst a)"
      "rx_run True r (pos + length l) rest caps = Some m"
    by (rule rx_run_LitE)
  then show ?thesis
    using that [of a rest] rx_run_pos [OF assms(2), of True "pos + length l" rest caps]
    by (simp add: lit_chars_fold comp_def)
qed

lemma rx_run_Opt0E:
  assumes "rx_run True (Opt l # r) pos s caps = Some m" "Bol \<notin> set r"
  obtains a rest where "s = a @ rest"
    "a = [] \<or> map (\<lambda>c. fold_letter (fst c)) a = map (\<lambda>c. of_char (ascii_tolower c)) l"
    "rx_run True r 0 rest caps = Some m"
  using assms(1)
proof (cases rule: rx_run_OptE)
  case (taken a rest)
  show ?thesis
    by (rule that [of a rest])
       (use taken rx_run_pos [OF assms(2), of True "pos + length l" rest caps]
         in \<open>simp_all add: lit_chars_fold comp_def\<close>)
next
  case skipped
  show ?thesis
    by (rule that [of "[]" s])
       (use skipped rx_run_pos [OF assms(2), of True pos s caps] in simp_all)
qed

lemma rx_run_Cap0E:
  assumes "rx_run True (Cap token_class n # r) pos s caps = Some m" "Bol \<notin> set r"
  obtains a rest where "s = a @ rest" "length a = n" "list_all (\<lambda>c. alphabet_char (fst c)) a"
    "rx_run True r 0 rest (caps @ [concat (map snd a)]) = Some m"
proof -
  from assms(1) obtain a rest where "s = a @ rest" "length a = n"
      "list_all (\<lambda>c. in_class True token_class (fst c)) a"
      "rx_run True r (pos + n) rest (caps @ [concat (map snd a)]) = Some m"
    by (rule rx_run_CapE)
  then show ?thesis
    using that [of a rest]
      rx_run_pos [OF assms(2), of True "pos + n" rest "caps @ [concat (map snd a)]"]
    by (simp add: in_class_token)
qed

lemma rx_run_Bol0: "rx_run cl (Bol # r) 0 s caps = rx_run cl r 0 s caps"
  by simp

lemma rx_run_EolE:
  assumes "rx_run cl [Eol] pos s caps = Some m"
  obtains "s = [] \<or> is_newline (map fst s)" "m = caps"
  using assms by (auto split: if_splits)

lemma rx_run_Eol:
  "s = [] \<or> is_newline (map fst s) \<Longrightarrow> rx_run cl [Eol] pos s caps = Some caps"
  by auto

declare rx_run.simps [simp del]


section \<open>The link pattern\<close>

lemma tolower_chars:
  "ascii_tolower CHR ''h'' = CHR ''h''" "ascii_tolower CHR ''t'' = CHR ''t''"
  "ascii_tolower CHR ''p'' = CHR ''p''" "ascii_tolower CHR ''s'' = CHR ''s''"
  "ascii_tolower CHR '':'' = CHR '':''" "ascii_tolower CHR ''/'' = CHR ''/''"
  "ascii_tolower CHR ''m'' = CHR ''m''" "ascii_tolower CHR ''e'' = CHR ''e''"
  "ascii_tolower CHR ''g'' = CHR ''g''" "ascii_tolower CHR ''a'' = CHR ''a''"
  "ascii_tolower CHR ''.'' = CHR ''.''" "ascii_tolower CHR ''c'' = CHR ''c''"
  "ascii_tolower CHR ''o'' = CHR ''o''" "ascii_tolower CHR ''n'' = CHR ''n''"
  "ascii_tolower CHR ''z'' = CHR ''z''" "ascii_tolower CHR ''#'' = CHR ''#''"
  "ascii_tolower CHR ''!'' = CHR ''!''" "ascii_tolower CHR ''f'' = CHR ''f''"
  "ascii_tolower CHR ''F'' = CHR ''f''" "ascii_tolower CHR 0x0A = CHR 0x0A"
  by (rule of_char_eqI [where ?'a = nat], simp add: of_char_ascii_tolower)+

lemma fold_letter_bang: "fold_letter cp = 33 \<Longrightarrow> cp = 33"
  by (auto simp: fold_letter_def split: if_splits)

lemma link_pattern_sound:
  assumes "rx_run True (link_pattern mk n) 0 s [] = Some m"
  shows "\<exists>P H X K NL. s = P @ H @ [X] @ K @ NL
      \<and> map (\<lambda>c. fold_letter (fst c)) P
          \<in> set (map (map of_char) (link_prefixes (map ascii_tolower mk)))
      \<and> length H = 8 \<and> length K = n
      \<and> list_all (\<lambda>c. alphabet_char (fst c)) H \<and> list_all (\<lambda>c. alphabet_char (fst c)) K
      \<and> fst X = 33 \<and> (NL = [] \<or> is_newline (map fst NL))
      \<and> m = [concat (map snd H), concat (map snd K)]"
proof -
  let ?f = "\<lambda>c::uchar. fold_letter (fst c)"
  have "rx_run True [Lit ''http'', Opt ''s'', Lit ''://mega'', Opt ''.co'', Lit (''.nz/#'' @ mk),
      Cap token_class 8, Lit ''!'', Cap token_class n, Eol] 0 s [] = Some m"
    using assms by (simp add: link_pattern_def rx_run_Bol0)
  then obtain a t1 where a: "s = a @ t1" "map ?f a = map (\<lambda>c. of_char (ascii_tolower c)) ''http''"
    and r1: "rx_run True [Opt ''s'', Lit ''://mega'', Opt ''.co'', Lit (''.nz/#'' @ mk),
      Cap token_class 8, Lit ''!'', Cap token_class n, Eol] 0 t1 [] = Some m"
    by (rule rx_run_Lit0E) simp
  from r1 obtain b t2 where b: "t1 = b @ t2"
      "b = [] \<or> map ?f b = map (\<lambda>c. of_char (ascii_tolower c)) ''s''"
    and r2: "rx_run True [Lit ''://mega'', Opt ''.co'', Lit (''.nz/#'' @ mk),
      Cap token_class 8, Lit ''!'', Cap token_class n, Eol] 0 t2 [] = Some m"
    by (rule rx_run_Opt0E) simp
  from r2 obtain c t3 where c: "t2 = c @ t3"
      "map ?f c = map (\<lambda>c. of_char (ascii_tolower c)) ''://mega''"
    and r3: "rx_run True [Opt ''.co'', Lit (''.nz/#'' @ mk),
      Cap token_class 8, Lit ''!'', Cap token_class n, Eol] 0 t3 [] = Some m"
    by (rule rx_run_Lit0E) simp
  from r3 obtain d t4 where d: "t3 = d @ t4"
      "d = [] \<or> map ?f d = map (\<lambda>c. of_char (ascii_tolower c)) ''.co''"
    and r4: "rx_run True [Lit (''.nz/#'' @ mk),
      Cap token_class 8, Lit ''!'', Cap token_class n, Eol] 0 t4 [] = Some m"
    by (rule rx_run_Opt0E) simp
  from r4 obtain e t5 where e: "t4 = e @ t5"
      "map ?f e = map (\<lambda>c. of_char (ascii_tolower c)) (''.nz/#'' @ mk)"
    and r5: "rx_run True [Cap token_class 8, Lit ''!'', Cap token_class n, Eol] 0 t5 [] = Some m"
    by (rule rx_run_Lit0E) simp
  from r5 obtain h t6 where h: "t5 = h @ t6" "length h = 8" "list_all (\<lambda>c. alphabet_char (fst c)) h"
    and r6: "rx_run True [Lit ''!'', Cap token_class n, Eol] 0 t6 ([] @ [concat (map snd h)]) = Some m"
    by (rule rx_run_Cap0E) simp
  from r6 obtain x t7 where x: "t6 = x @ t7" "map ?f x = map (\<lambda>c. of_char (ascii_tolower c)) ''!''"
    and r7: "rx_run True [Cap token_class n, Eol] 0 t7 ([] @ [concat (map snd h)]) = Some m"
    by (rule rx_run_Lit0E) simp
  from r7 obtain k nl where k: "t7 = k @ nl" "length k = n" "list_all (\<lambda>c. alphabet_char (fst c)) k"
    and r8: "rx_run True [Eol] 0 nl (([] @ [concat (map snd h)]) @ [concat (map snd k)]) = Some m"
    by (rule rx_run_Cap0E) simp
  have nl: "nl = [] \<or> is_newline (map fst nl)" and m: "m = [concat (map snd h), concat (map snd k)]"
    using r8 by (auto elim: rx_run_EolE)
  obtain X where xb: "x = [X]" "fst X = 33"
    using x(2) by (auto simp: tolower_chars map_eq_Cons_conv dest: fold_letter_bang)
  have la: "map ?f a = map of_char ''http''" using a(2) by (simp add: tolower_chars)
  have lb: "map ?f b = [] \<or> map ?f b = map of_char ''s''"
    using b(2) by (auto simp: tolower_chars)
  have lc: "map ?f c = map of_char ''://mega''" using c(2) by (simp add: tolower_chars)
  have ld: "map ?f d = [] \<or> map ?f d = map of_char ''.co''"
    using d(2) by (auto simp: tolower_chars)
  have le: "map ?f e = map of_char ''.nz/#'' @ map of_char (map ascii_tolower mk)"
    using e(2) by (simp add: tolower_chars comp_def)
  have pre: "map ?f (a @ b @ c @ d @ e)
      \<in> set (map (map of_char) (link_prefixes (map ascii_tolower mk)))"
    using lb ld by (auto simp: la lc le link_prefixes_def)
  have dec: "s = (a @ b @ c @ d @ e) @ h @ [X] @ k @ nl"
    using a(1) b(1) c(1) d(1) e(1) h(1) x(1) k(1) xb by simp
  show ?thesis
    apply (rule exI [of _ "a @ b @ c @ d @ e"])
    apply (rule exI [of _ h])
    apply (rule exI [of _ X])
    apply (rule exI [of _ k])
    apply (rule exI [of _ nl])
    using pre dec h(2,3) k(2,3) nl m xb(2) by simp
qed

lemma link_pattern_run:
  fixes a b c d e h k nl :: "uchar list"
  assumes a: "map (\<lambda>c. fold_letter (fst c)) a = map of_char ''http''"
    and b: "b = [] \<or> map (\<lambda>c. fold_letter (fst c)) b = map of_char ''s''"
    and c: "map (\<lambda>c. fold_letter (fst c)) c = map of_char ''://mega''"
    and d: "d = [] \<or> map (\<lambda>c. fold_letter (fst c)) d = map of_char ''.co''"
    and e: "map (\<lambda>c. fold_letter (fst c)) e = map of_char ''.nz/#'' @ map of_char (map ascii_tolower mk)"
    and h: "length h = 8" "list_all (\<lambda>c. alphabet_char (fst c)) h"
    and x: "fst X = 33"
    and k: "length k = n" "list_all (\<lambda>c. alphabet_char (fst c)) k"
    and nl: "nl = [] \<or> is_newline (map fst nl)"
  shows "rx_run True (link_pattern mk n) 0 (a @ b @ c @ d @ e @ h @ [X] @ k @ nl) []
           = Some [concat (map snd h), concat (map snd k)]"
proof -
  let ?f = "\<lambda>c::uchar. fold_letter (fst c)"
  let ?H = "concat (map snd h)"
  let ?K = "concat (map snd k)"
  let ?t1 = "[Cap token_class n, Eol]"
  let ?t2 = "Lit ''!'' # ?t1"
  let ?t3 = "Cap token_class 8 # ?t2"
  let ?t4 = "Lit (''.nz/#'' @ mk) # ?t3"
  let ?t5 = "Opt ''.co'' # ?t4"
  let ?t6 = "Lit ''://mega'' # ?t5"
  let ?t7 = "Opt ''s'' # ?t6"
  let ?t8 = "Lit ''http'' # ?t7"
  have lit: "list_all2 (lit_char True) l (map fst u)"
    if "map ?f u = map (\<lambda>c. of_char (ascii_tolower c)) l" for l u
    using that by (simp add: lit_chars_fold comp_def)
  have hc: "list_all (\<lambda>c. in_class True token_class (fst c)) h"
    and kc: "list_all (\<lambda>c. in_class True token_class (fst c)) k"
    using h(2) k(2) by (simp_all add: in_class_token)
  have s1: "rx_run True ?t1 q (k @ nl) [?H] = Some [?H, ?K]" for q
    using rx_run_Cap [OF k(1) kc, of "[Eol]" q nl "[?H]"] rx_run_Eol [OF nl] by simp
  have lx: "list_all2 (lit_char True) ''!'' (map fst [X])"
    by (rule lit) (simp add: x tolower_chars fold_letter_def)
  have s2: "rx_run True ?t2 q ([X] @ k @ nl) [?H] = Some [?H, ?K]" for q
    using rx_run_Lit [OF lx, of ?t1 q "k @ nl" "[?H]"] s1 by simp
  have s3: "rx_run True ?t3 q (h @ [X] @ k @ nl) [] = Some [?H, ?K]" for q
    using rx_run_Cap [OF h(1) hc, of ?t2 q "[X] @ k @ nl" "[]"] s2 by simp
  have le: "list_all2 (lit_char True) (''.nz/#'' @ mk) (map fst e)"
    by (rule lit) (simp add: e tolower_chars comp_def)
  have s4: "rx_run True ?t4 q (e @ h @ [X] @ k @ nl) [] = Some [?H, ?K]" for q
    using rx_run_Lit [OF le, of ?t3 q "h @ [X] @ k @ nl" "[]"] s3 by simp
  have s5: "rx_run True ?t5 q (d @ e @ h @ [X] @ k @ nl) [] = Some [?H, ?K]" for q
  proof (cases "d = []")
    case True
    obtain e1 e2 e' where e': "e = e1 # e2 # e'" "fold_letter (fst e2) = 110"
      using e by (auto simp: map_eq_Cons_conv)
    have "\<not> lit_at True ''.co'' (e @ h @ [X] @ k @ nl)"
      by (simp add: lit_at_def e' lit_char_fold tolower_chars)
    then show ?thesis using True s4 [of q] by (simp add: rx_run_Opt_skipped)
  next
    case False
    then have "list_all2 (lit_char True) ''.co'' (map fst d)"
      using d by (intro lit) (simp add: tolower_chars)
    then show ?thesis
      by (rule rx_run_Opt_taken) (rule s4)
  qed
  have lc: "list_all2 (lit_char True) ''://mega'' (map fst c)"
    by (rule lit) (simp add: c tolower_chars)
  have s6: "rx_run True ?t6 q (c @ d @ e @ h @ [X] @ k @ nl) [] = Some [?H, ?K]" for q
    using rx_run_Lit [OF lc, of ?t5 q "d @ e @ h @ [X] @ k @ nl" "[]"] s5 by simp
  have s7: "rx_run True ?t7 q (b @ c @ d @ e @ h @ [X] @ k @ nl) [] = Some [?H, ?K]" for q
  proof (cases "b = []")
    case True
    obtain c1 c' where c': "c = c1 # c'" "fold_letter (fst c1) = 58"
      using c by (auto simp: map_eq_Cons_conv)
    have "\<not> lit_at True ''s'' (c @ d @ e @ h @ [X] @ k @ nl)"
      by (simp add: lit_at_def c' lit_char_fold tolower_chars)
    then show ?thesis using True s6 [of q] by (simp add: rx_run_Opt_skipped)
  next
    case False
    then have "list_all2 (lit_char True) ''s'' (map fst b)"
      using b by (intro lit) (simp add: tolower_chars)
    then show ?thesis
      by (rule rx_run_Opt_taken) (rule s6)
  qed
  have la: "list_all2 (lit_char True) ''http'' (map fst a)"
    by (rule lit) (simp add: a tolower_chars)
  have s8: "rx_run True ?t8 0 (a @ b @ c @ d @ e @ h @ [X] @ k @ nl) [] = Some [?H, ?K]"
    using rx_run_Lit [OF la, of ?t7 0 "b @ c @ d @ e @ h @ [X] @ k @ nl" "[]"] s7 by simp
  then show ?thesis
    by (simp add: link_pattern_def rx_run_Bol0)
qed

lemma map_append_split:
  assumes "map f xs = ys @ zs"
  obtains us vs where "xs = us @ vs" "map f us = ys" "map f vs = zs"
proof
  show "xs = take (length ys) xs @ drop (length ys) xs" by simp
  have "map f (take (length ys) xs) = take (length ys) (map f xs)" by (simp add: take_map)
  then show "map f (take (length ys) xs) = ys" using assms by simp
  have "map f (drop (length ys) xs) = drop (length ys) (map f xs)" by (simp add: drop_map)
  then show "map f (drop (length ys) xs) = zs" using assms by simp
qed

lemma link_pattern_complete:
  fixes P H K NL :: "uchar list"
  assumes p: "map (\<lambda>c. fold_letter (fst c)) P
               \<in> set (map (map of_char) (link_prefixes (map ascii_tolower mk)))"
    and h: "length H = 8" "list_all (\<lambda>c. alphabet_char (fst c)) H"
    and x: "fst X = 33"
    and k: "length K = n" "list_all (\<lambda>c. alphabet_char (fst c)) K"
    and nl: "NL = [] \<or> is_newline (map fst NL)"
  shows "rx_run True (link_pattern mk n) 0 (P @ H @ [X] @ K @ NL) []
           = Some [concat (map snd H), concat (map snd K)]"
proof -
  let ?f = "\<lambda>c::uchar. fold_letter (fst c)"
  let ?l = "map of_char (map ascii_tolower mk) :: nat list"
  have "\<exists>ss co. (ss = [] \<or> ss = map of_char ''s'') \<and> (co = [] \<or> co = map of_char ''.co'')
      \<and> map ?f P = map of_char ''http'' @ ss @ map of_char ''://mega'' @ co @ map of_char ''.nz/#'' @ ?l"
  proof -
    from p consider "map ?f P = map of_char ''http://mega.nz/#'' @ ?l"
      | "map ?f P = map of_char ''https://mega.nz/#'' @ ?l"
      | "map ?f P = map of_char ''http://mega.co.nz/#'' @ ?l"
      | "map ?f P = map of_char ''https://mega.co.nz/#'' @ ?l"
      by (auto simp: link_prefixes_def)
    then show ?thesis
    proof cases
      case 1
      then show ?thesis by (intro exI [of _ "[]"]) simp
    next
      case 2
      then show ?thesis by (intro exI [of _ "map of_char ''s''"] exI [of _ "[]"]) simp
    next
      case 3
      then show ?thesis by (intro exI [of _ "[]"] exI [of _ "map of_char ''.co''"]) simp
    next
      case 4
      then show ?thesis by (intro exI [of _ "map of_char ''s''"] exI [of _ "map of_char ''.co''"]) simp
    qed
  qed
  then obtain ss co where ss: "ss = [] \<or> ss = map of_char ''s''"
    and co: "co = [] \<or> co = map of_char ''.co''"
    and lp: "map ?f P = map of_char ''http'' @ ss @ map of_char ''://mega'' @ co @ map of_char ''.nz/#'' @ ?l"
    by blast
  from lp obtain a p1 where a: "P = a @ p1" "map ?f a = map of_char ''http''"
    and l1: "map ?f p1 = ss @ map of_char ''://mega'' @ co @ map of_char ''.nz/#'' @ ?l"
    by (rule map_append_split)
  from l1 obtain b p2 where b: "p1 = b @ p2" "map ?f b = ss"
    and l2: "map ?f p2 = map of_char ''://mega'' @ co @ map of_char ''.nz/#'' @ ?l"
    by (rule map_append_split)
  from l2 obtain c p3 where c: "p2 = c @ p3" "map ?f c = map of_char ''://mega''"
    and l3: "map ?f p3 = co @ map of_char ''.nz/#'' @ ?l"
    by (rule map_append_split)
  from l3 obtain d e where d: "p3 = d @ e" "map ?f d = co"
    and e: "map ?f e = map of_char ''.nz/#'' @ ?l"
    by (rule map_append_split)
  have b': "b = [] \<or> map ?f b = map of_char ''s''" using b(2) ss by auto
  have d': "d = [] \<or> map ?f d = map of_char ''.co''" using d(2) co by auto
  have "rx_run True (link_pattern mk n) 0 (a @ b @ c @ d @ e @ H @ [X] @ K @ NL) []
      = Some [concat (map snd H), concat (map snd K)]"
    by (rule link_pattern_run [OF a(2) b' c(2) d' e h x k nl])
  then show ?thesis using a(1) b(1) c(1) d(1) by simp
qed


section \<open>Classification\<close>

lemma g_regex_match_file:
  "g_regex_match file_regex s =
     (case utf8_decode s of
        None \<Rightarrow> None
      | Some cs \<Rightarrow> rx_run True (link_pattern ''!'' 43) 0 cs [])"
  by (simp add: g_regex_match_def file_regex_def link_pattern_def rx_search_anchored
      cong: option.case_cong)

lemma g_regex_match_folder:
  "g_regex_match folder_regex s =
     (case utf8_decode s of
        None \<Rightarrow> None
      | Some cs \<Rightarrow> rx_run True (link_pattern ''F!'' 22) 0 cs [])"
  by (simp add: g_regex_match_def folder_regex_def link_pattern_def rx_search_anchored
      cong: option.case_cong)

lemma is_newline_line_endings:
  "(NL = [] \<or> is_newline (map fst NL)) = (map fst NL \<in> set line_endings)"
  by (auto simp: is_newline_def line_endings_def)

lemma link_match_sound:
  assumes d: "utf8_decode s = Some cs"
    and r: "rx_run True (link_pattern mk n) 0 cs [] = Some m"
  shows "\<exists>h k. m = [h, k] \<and> accepted_link (map ascii_tolower mk) n s h k"
proof -
  from link_pattern_sound [OF r]
  obtain P H X K NL where *: "cs = P @ H @ [X] @ K @ NL"
      "map (\<lambda>c. fold_letter (fst c)) P
          \<in> set (map (map of_char) (link_prefixes (map ascii_tolower mk)))"
      "length H = 8" "length K = n"
      "list_all (\<lambda>c. alphabet_char (fst c)) H" "list_all (\<lambda>c. alphabet_char (fst c)) K"
      "fst X = 33" "NL = [] \<or> is_newline (map fst NL)"
      "m = [concat (map snd H), concat (map snd K)]"
    by blast
  let ?p = "concat (map snd P)" and ?h = "concat (map snd H)"
  let ?k = "concat (map snd K)" and ?nl = "concat (map snd NL)"
  from utf8_decode_wf [OF d]
  have s: "s = concat (map snd cs)" and wf: "\<forall>c\<in>set cs. utf8_decode (snd c) = Some [c]"
    by simp_all
  have dp: "utf8_decode ?p = Some P" and dh: "utf8_decode ?h = Some H"
    and dk: "utf8_decode ?k = Some K" and dn: "utf8_decode ?nl = Some NL"
    using wf unfolding *(1) by (simp_all add: utf8_decode_sub)
  have "utf8_decode (snd X) = Some [X]" using wf unfolding *(1) by simp
  from utf8_decode_ascii_char [OF this] *(7)
  have x: "snd X = ''!''" by (simp add: char_of_eq_nat)
  have dec: "s = ?p @ ?h @ ''!'' @ ?k @ ?nl"
    unfolding s *(1) using x by simp
  have "link_prefix (map ascii_tolower mk) ?p" using dp *(2) by (simp add: link_prefix_def)
  moreover have "token 8 ?h" using dh *(3,5) by (simp add: token_def)
  moreover have "token n ?k" using dk *(4,6) by (simp add: token_def)
  moreover have "line_end ?nl"
    using dn *(8) by (simp add: line_end_def is_newline_line_endings)
  ultimately have "accepted_link (map ascii_tolower mk) n s ?h ?k"
    unfolding accepted_link_def using dec by blast
  then show ?thesis using *(9) by blast
qed

lemma accepted_link_decode:
  assumes "accepted_link mk n s h k"
  obtains P H K NL where "utf8_decode s = Some (P @ H @ [(33, ''!'')] @ K @ NL)"
    "map (\<lambda>c. fold_letter (fst c)) P \<in> set (map (map of_char) (link_prefixes mk))"
    "length H = 8" "length K = n"
    "list_all (\<lambda>c. alphabet_char (fst c)) H" "list_all (\<lambda>c. alphabet_char (fst c)) K"
    "NL = [] \<or> is_newline (map fst NL)"
    "concat (map snd H) = h" "concat (map snd K) = k"
proof -
  from assms obtain p nl where dec: "s = p @ h @ ''!'' @ k @ nl"
    and a: "link_prefix mk p" "token 8 h" "token n k" "line_end nl"
    unfolding accepted_link_def by blast
  from a(1) obtain P where P: "utf8_decode p = Some P"
      "map (\<lambda>c. fold_letter (fst c)) P \<in> set (map (map of_char) (link_prefixes mk))"
    by (auto simp: link_prefix_def split: option.splits)
  from a(2) obtain H where H: "utf8_decode h = Some H" "length H = 8"
      "list_all (\<lambda>c. alphabet_char (fst c)) H"
    by (auto simp: token_def split: option.splits)
  from a(3) obtain K where K: "utf8_decode k = Some K" "length K = n"
      "list_all (\<lambda>c. alphabet_char (fst c)) K"
    by (auto simp: token_def split: option.splits)
  from a(4) obtain NL where NL: "utf8_decode nl = Some NL" "NL = [] \<or> is_newline (map fst NL)"
    by (auto simp: line_end_def is_newline_line_endings split: option.splits)
  have b: "utf8_decode ''!'' = Some [(33, ''!'')]" by simp
  have "utf8_decode s = Some (P @ H @ [(33, ''!'')] @ K @ NL)"
    unfolding dec
    by (simp add: utf8_decode_append [OF P(1)] utf8_decode_append [OF H(1)]
        utf8_decode_append [OF b] utf8_decode_append [OF K(1)] NL(1))
  then show ?thesis
    using that P(2) H(2,3) K(2,3) NL(2) utf8_decode_wf [OF H(1)] utf8_decode_wf [OF K(1)]
    by blast
qed

lemma link_match_complete:
  assumes "accepted_link (map ascii_tolower mk) n s h k"
  shows "\<exists>cs. utf8_decode s = Some cs \<and> rx_run True (link_pattern mk n) 0 cs [] = Some [h, k]"
proof -
  from assms obtain P H K NL where *: "utf8_decode s = Some (P @ H @ [(33, ''!'')] @ K @ NL)"
    "map (\<lambda>c. fold_letter (fst c)) P
       \<in> set (map (map of_char) (link_prefixes (map ascii_tolower mk)))"
    "length H = 8" "length K = n"
    "list_all (\<lambda>c. alphabet_char (fst c)) H" "list_all (\<lambda>c. alphabet_char (fst c)) K"
    "NL = [] \<or> is_newline (map fst NL)"
    "concat (map snd H) = h" "concat (map snd K) = k"
    by (rule accepted_link_decode)
  have "rx_run True (link_pattern mk n) 0 (P @ H @ [(33, ''!'')] @ K @ NL) []
      = Some [concat (map snd H), concat (map snd K)]"
    by (rule link_pattern_complete [OF *(2,3,5) _ *(4,6,7)]) simp
  then show ?thesis using *(1,8,9) by simp
qed

lemma link_match_iff:
  "(case utf8_decode s of
      None \<Rightarrow> None
    | Some cs \<Rightarrow> rx_run True (link_pattern mk n) 0 cs []) = Some m
   \<longleftrightarrow> (\<exists>h k. m = [h, k] \<and> accepted_link (map ascii_tolower mk) n s h k)"
proof
  assume "(case utf8_decode s of
      None \<Rightarrow> None
    | Some cs \<Rightarrow> rx_run True (link_pattern mk n) 0 cs []) = Some m"
  then obtain cs where "utf8_decode s = Some cs" "rx_run True (link_pattern mk n) 0 cs [] = Some m"
    by (auto split: option.splits)
  then show "\<exists>h k. m = [h, k] \<and> accepted_link (map ascii_tolower mk) n s h k"
    by (rule link_match_sound)
next
  assume "\<exists>h k. m = [h, k] \<and> accepted_link (map ascii_tolower mk) n s h k"
  then obtain h k where m: "m = [h, k]" and a: "accepted_link (map ascii_tolower mk) n s h k"
    by blast
  from link_match_complete [OF a] m
  show "(case utf8_decode s of
      None \<Rightarrow> None
    | Some cs \<Rightarrow> rx_run True (link_pattern mk n) 0 cs []) = Some m"
    by auto
qed

lemma file_folder_exclusive:
  assumes "accepted_link ''!'' n s h k" "accepted_link ''f!'' n' s h' k'"
  shows False
proof -
  from assms(1) obtain P R where 1: "utf8_decode s = Some (P @ R)"
      "map (\<lambda>c. fold_letter (fst c)) P \<in> set (map (map of_char) (link_prefixes ''!''))"
    by (rule accepted_link_decode) blast
  from assms(2) obtain P' R' where 2: "utf8_decode s = Some (P' @ R')"
      "map (\<lambda>c. fold_letter (fst c)) P' \<in> set (map (map of_char) (link_prefixes ''f!''))"
    by (rule accepted_link_decode) blast
  let ?f = "\<lambda>c::uchar. fold_letter (fst c)"
  have fi: "dropWhile (\<lambda>x. x \<noteq> 35) (q @ z) ! 1 = (33::nat)"
    if "q \<in> set (map (map of_char) (link_prefixes ''!''))" for q z
    using that by (auto simp: link_prefixes_def)
  have fo: "dropWhile (\<lambda>x. x \<noteq> 35) (q @ z) ! 1 = (102::nat)"
    if "q \<in> set (map (map of_char) (link_prefixes ''f!''))" for q z
    using that by (auto simp: link_prefixes_def)
  have "P @ R = P' @ R'" using 1(1) 2(1) by simp
  then have "map ?f (P @ R) = map ?f (P' @ R')" by simp
  then have "map ?f P @ map ?f R = map ?f P' @ map ?f R'" by simp
  then show False
    using fi [OF 1(2), of "map ?f R"] fo [OF 2(2), of "map ?f R'"] by simp
qed

lemma classify_FileRef_iff:
  "classify s = FileRef h k \<longleftrightarrow> accepted_link ''!'' 43 s h k"
proof -
  have "classify s = FileRef h k \<longleftrightarrow> g_regex_match file_regex s = Some [h, k]"
  proof
    assume "classify s = FileRef h k"
    then obtain m where m: "g_regex_match file_regex s = Some m"
        "h = g_match_info_fetch m 1" "k = g_match_info_fetch m 2"
      by (auto simp: classify_def split: option.splits)
    from m(1) obtain h' k' where "m = [h', k']"
      unfolding g_regex_match_file link_match_iff by blast
    then show "g_regex_match file_regex s = Some [h, k]"
      using m by (simp add: g_match_info_fetch_def)
  next
    assume "g_regex_match file_regex s = Some [h, k]"
    then show "classify s = FileRef h k"
      by (simp add: classify_def g_match_info_fetch_def)
  qed
  then show ?thesis
    unfolding g_regex_match_file link_match_iff by (simp add: tolower_chars)
qed

lemma classify_FolderRef_iff:
  "classify s = FolderRef h k \<longleftrightarrow> accepted_link ''f!'' 22 s h k"
proof -
  have fold: "g_regex_match folder_regex s = Some [h, k] \<longleftrightarrow> accepted_link ''f!'' 22 s h k"
    unfolding g_regex_match_folder link_match_iff by (simp add: tolower_chars)
  have nofile: "g_regex_match file_regex s = None"
    if f: "g_regex_match folder_regex s = Some m" for m
  proof (rule ccontr)
    assume "g_regex_match file_regex s \<noteq> None"
    then obtain m' where "g_regex_match file_regex s = Some m'" by blast
    then obtain h1 k1 where 1: "accepted_link ''!'' 43 s h1 k1"
      unfolding g_regex_match_file link_match_iff by (auto simp: tolower_chars)
    from f obtain h2 k2 where 2: "accepted_link ''f!'' 22 s h2 k2"
      unfolding g_regex_match_folder link_match_iff by (auto simp: tolower_chars)
    show False by (rule file_folder_exclusive [OF 1 2])
  qed
  have "classify s = FolderRef h k \<longleftrightarrow> g_regex_match folder_regex s = Some [h, k]"
  proof
    assume c: "classify s = FolderRef h k"
    then obtain m where m: "g_regex_match folder_regex s = Some m"
        "h = g_match_info_fetch m 1" "k = g_match_info_fetch m 2"
      by (auto simp: classify_def split: option.splits)
    from m(1) obtain h' k' where "m = [h', k']"
      unfolding g_regex_match_folder link_match_iff by blast
    then show "g_regex_match folder_regex s = Some [h, k]"
      using m by (simp add: g_match_info_fetch_def)
  next
    assume f: "g_regex_match folder_regex s = Some [h, k]"
    then show "classify s = FolderRef h k"
      using nofile [OF f] by (simp add: classify_def g_match_info_fetch_def)
  qed
  then show ?thesis using fold by simp
qed

lemma ascii_tolower_ascii:
  "(of_char (ascii_tolower c) :: nat) < 128 \<Longrightarrow> (of_char c :: nat) < 128"
  by (auto simp: of_char_ascii_tolower split: if_splits)

lemma ascii_string:
  assumes "list_all (\<lambda>c. (of_char c :: nat) < 128) (map ascii_tolower p)"
  shows "utf8_decode p = Some (map (\<lambda>c. (of_char c, [c])) p)"
proof -
  have "list_all (\<lambda>c. (of_char c :: nat) < 128) p"
    using assms by (auto simp: list_all_iff dest: ascii_tolower_ascii)
  then show ?thesis by (rule utf8_decode_ascii)
qed

lemma in_alphabet_ascii: "in_alphabet c \<Longrightarrow> (of_char c :: nat) < 128"
  by (auto simp: in_alphabet_def)

lemma alphabet_token:
  assumes "length h = n" "list_all in_alphabet h"
  shows "token n h"
proof -
  have "list_all (\<lambda>c. (of_char c :: nat) < 128) h"
    using assms(2) by (auto simp: list_all_iff dest: in_alphabet_ascii)
  then have "utf8_decode h = Some (map (\<lambda>c. (of_char c, [c])) h)" by (rule utf8_decode_ascii)
  then show ?thesis
    using assms by (simp add: token_def list_all_iff alphabet_char_of_char)
qed

lemma ref_string_accepted:
  assumes mk: "list_all (\<lambda>c. (of_char c :: nat) < 128) mk"
    and r: "ref_string mk n s h k"
  shows "accepted_link mk n s h k"
proof -
  from r obtain p where p: "s = p @ h @ ''!'' @ k"
      "map ascii_tolower p \<in> set (link_prefixes mk)"
      "length h = 8" "length k = n" "list_all in_alphabet h" "list_all in_alphabet k"
    unfolding ref_string_def by blast
  have "list_all (\<lambda>c. (of_char c :: nat) < 128) (map ascii_tolower p)"
    using p(2) mk by (auto simp: link_prefixes_def)
  then have dp: "utf8_decode p = Some (map (\<lambda>c. (of_char c, [c])) p)" by (rule ascii_string)
  have e: "map (\<lambda>c. fold_letter (fst c)) (map (\<lambda>c. (of_char c, [c])) p)
      = map of_char (map ascii_tolower p)"
    by (simp add: fold_letter_of_char comp_def)
  have "map (\<lambda>c. fold_letter (fst c)) (map (\<lambda>c. (of_char c, [c])) p)
      \<in> set (map (map of_char) (link_prefixes mk))"
    unfolding e set_map by (rule imageI [OF p(2)])
  then have "link_prefix mk p"
    by (simp only: link_prefix_def dp option.case)
  moreover have "token 8 h" "token n k"
    using p(3-6) by (simp_all add: alphabet_token)
  moreover have "line_end []" by (simp add: line_end_def line_endings_def)
  moreover have "s = p @ h @ ''!'' @ k @ []" using p(1) by simp
  ultimately show ?thesis unfolding accepted_link_def by blast
qed

lemma accepted_link_valid: "accepted_link mk n s h k \<Longrightarrow> valid_utf8 s"
  by (erule accepted_link_decode) (simp add: valid_utf8_def)


section \<open>Classifier round trip\<close>

text \<open>
  C3. A string of the file grammar is classified as a file reference whose handle and key
  are the substrings it embeds, and likewise for the folder grammar. The converse needs
  more than the grammar: among the strings of valid UTF-8, those classified as a file
  (folder) reference are exactly the strings the file (folder) pattern accepts, in which
  a character of the handle or the key may also be U+017F or U+212A, U+017F may stand
  for the \<open>s\<close> of the scheme, and one line ending may follow the key; the handle and the
  key are the bytes of the 8 and 43 (22) characters. Every other string of valid UTF-8 is
  invalid.
\<close>

theorem classifier_round_trip:
  "(file_ref_string s h k \<longrightarrow> classify s = FileRef h k)
   \<and> (folder_ref_string s h k \<longrightarrow> classify s = FolderRef h k)
   \<and> (valid_utf8 s \<longrightarrow>
        (classify s = FileRef h k \<longleftrightarrow> accepted_link ''!'' 43 s h k)
        \<and> (classify s = FolderRef h k \<longleftrightarrow> accepted_link ''f!'' 22 s h k)
        \<and> (classify s = Invalid \<longleftrightarrow>
             (\<forall>h k. \<not> accepted_link ''!'' 43 s h k \<and> \<not> accepted_link ''f!'' 22 s h k)))"
proof -
  have inv: "classify s = Invalid \<longleftrightarrow>
        (\<forall>h k. \<not> accepted_link ''!'' 43 s h k \<and> \<not> accepted_link ''f!'' 22 s h k)"
  proof (cases "classify s")
    case (FileRef h' k')
    then show ?thesis using classify_FileRef_iff [of s h' k'] by auto
  next
    case (FolderRef h' k')
    then show ?thesis using classify_FolderRef_iff [of s h' k'] by auto
  next
    case Invalid
    have "classify s \<noteq> FileRef h' k'" "classify s \<noteq> FolderRef h' k'" for h' k'
      using Invalid by simp_all
    then show ?thesis
      using Invalid unfolding classify_FileRef_iff classify_FolderRef_iff by blast
  qed
  have fl: "classify s = FileRef h k" if "file_ref_string s h k"
    unfolding classify_FileRef_iff
    by (rule ref_string_accepted) (use that in \<open>simp_all add: file_ref_string_def\<close>)
  have fd: "classify s = FolderRef h k" if "folder_ref_string s h k"
    unfolding classify_FolderRef_iff
    by (rule ref_string_accepted) (use that in \<open>simp_all add: folder_ref_string_def\<close>)
  show ?thesis
    using fl fd classify_FileRef_iff [of s h k] classify_FolderRef_iff [of s h k] inv
    by blast
qed

theorem classifier_round_trip_witness:
  "file_ref_string file_link_1 ''AAAAAAAA'' ''0123456789012345678901234567890123456789_-z''
   \<and> classify file_link_1 = FileRef ''AAAAAAAA'' ''0123456789012345678901234567890123456789_-z''
   \<and> folder_ref_string folder_link ''CCCCCCCC'' ''0123456789012345678_-z''
   \<and> classify folder_link = FolderRef ''CCCCCCCC'' ''0123456789012345678_-z''
   \<and> valid_utf8 (kelvin_link @ [CHR 0x0D, CHR 0x0A])
   \<and> accepted_link ''!'' 43 (kelvin_link @ [CHR 0x0D, CHR 0x0A])
        ([CHR 0xE2, CHR 0x84, CHR 0xAA] @ ''AAAAAAA'')
        ''0123456789012345678901234567890123456789_-z''
   \<and> classify (kelvin_link @ [CHR 0x0D, CHR 0x0A]) =
        FileRef ([CHR 0xE2, CHR 0x84, CHR 0xAA] @ ''AAAAAAA'')
          ''0123456789012345678901234567890123456789_-z''"
proof -
  have a: "file_ref_string file_link_1 ''AAAAAAAA'' ''0123456789012345678901234567890123456789_-z''"
    unfolding file_ref_string_def ref_string_def
    by (rule exI [of _ "''https://mega.nz/#!''"])
       (simp add: file_link_1_def link_prefixes_def tolower_chars in_alphabet_def)
  have b: "folder_ref_string folder_link ''CCCCCCCC'' ''0123456789012345678_-z''"
    unfolding folder_ref_string_def ref_string_def
    by (rule exI [of _ "''https://mega.nz/#F!''"])
       (simp add: folder_link_def link_prefixes_def tolower_chars in_alphabet_def)
  have v: "valid_utf8 (kelvin_link @ [CHR 0x0D, CHR 0x0A])"
    by (simp add: valid_utf8_def kelvin_link_def utf8_tail_def)
  have c: "accepted_link ''!'' 43 (kelvin_link @ [CHR 0x0D, CHR 0x0A])
        ([CHR 0xE2, CHR 0x84, CHR 0xAA] @ ''AAAAAAA'')
        ''0123456789012345678901234567890123456789_-z''"
    unfolding accepted_link_def
    by (rule exI [of _ "''https://mega.nz/#!''"], rule exI [of _ "[CHR 0x0D, CHR 0x0A]"])
       (simp add: kelvin_link_def link_prefix_def link_prefixes_def token_def line_end_def
         line_endings_def fold_letter_def alphabet_char_def utf8_tail_def)
  show ?thesis
    using a b v c
      classifier_round_trip [of file_link_1 "''AAAAAAAA''" "''0123456789012345678901234567890123456789_-z''"]
      classifier_round_trip [of folder_link "''CCCCCCCC''" "''0123456789012345678_-z''"]
      classifier_round_trip [of "kelvin_link @ [CHR 0x0D, CHR 0x0A]"
        "[CHR 0xE2, CHR 0x84, CHR 0xAA] @ ''AAAAAAA''"
        "''0123456789012345678901234567890123456789_-z''"]
    by blast
qed

text \<open>
  The claim as the spec states it fails on a file link followed by a line feed: the text
  after the handle then has 44 characters, the last of them outside the alphabet, and the
  link is still classified as a file reference. It also fails on a file link whose
  handle starts with U+212A: the handle has 10 bytes, three of them outside the alphabet.
\<close>

theorem trailing_line_feed_accepted:
  "classify (file_link_1 @ [CHR 0x0A]) =
     FileRef ''AAAAAAAA'' ''0123456789012345678901234567890123456789_-z''
   \<and> drop 27 (file_link_1 @ [CHR 0x0A]) = ''0123456789012345678901234567890123456789_-z'' @ [CHR 0x0A]
   \<and> length (drop 27 (file_link_1 @ [CHR 0x0A])) = 44
   \<and> \<not> list_all in_alphabet (drop 27 (file_link_1 @ [CHR 0x0A]))
   \<and> classify kelvin_link =
       FileRef ([CHR 0xE2, CHR 0x84, CHR 0xAA] @ ''AAAAAAA'')
         ''0123456789012345678901234567890123456789_-z''
   \<and> length ([CHR 0xE2, CHR 0x84, CHR 0xAA] @ ''AAAAAAA'') = 10
   \<and> \<not> list_all in_alphabet ([CHR 0xE2, CHR 0x84, CHR 0xAA] @ ''AAAAAAA'')"
  by (simp add: classify_def regex_defs rx_run.simps rx_search.simps file_link_1_def
      kelvin_link_def in_alphabet_def)

section \<open>Letter case\<close>

lemma ascii_tolower_high:
  assumes "(128::nat) \<le> of_char x" "ascii_tolower x = ascii_tolower y"
  shows "y = x"
proof (rule of_char_eqI [where ?'a = nat])
  have "(of_char (ascii_tolower x) :: nat) = of_char (ascii_tolower y)" using assms(2) by simp
  then show "(of_char y :: nat) = of_char x"
    using assms(1) by (auto simp: of_char_ascii_tolower split: if_splits)
qed

lemma ascii_tolower_high_list:
  "list_all (\<lambda>b. (128::nat) \<le> of_char b) bs \<Longrightarrow> map ascii_tolower bs = map ascii_tolower bs'
     \<Longrightarrow> bs' = bs"
proof (induction bs arbitrary: bs')
  case Nil
  then show ?case by simp
next
  case (Cons b bs)
  then obtain b' t where t: "bs' = b' # t" "ascii_tolower b = ascii_tolower b'"
      "map ascii_tolower bs = map ascii_tolower t"
    by (cases bs') auto
  have "b' = b" using ascii_tolower_high [OF _ t(2)] Cons.prems(1) by simp
  moreover have "t = bs" using Cons.IH [OF _ t(3)] Cons.prems(1) by simp
  ultimately show ?case using t(1) by simp
qed

lemma utf8_char_high:
  assumes "utf8_decode bs = Some [c]" "128 \<le> fst c"
  shows "list_all (\<lambda>b. (128::nat) \<le> of_char b) bs"
proof (cases bs)
  case Nil
  then show ?thesis using assms by simp
next
  case (Cons b t)
  show ?thesis
    using assms unfolding Cons
    by (auto split: if_splits list.splits simp: Let_def utf8_decode_Nil_iff utf8_tail_def)
qed

lemma utf8_char_same_case:
  assumes d: "utf8_decode bs = Some [c]" and s: "map ascii_tolower bs = map ascii_tolower bs'"
  shows "\<exists>c'. utf8_decode bs' = Some [c'] \<and> fold_letter (fst c) = fold_letter (fst c')
             \<and> map ascii_tolower (snd c) = map ascii_tolower (snd c')"
proof (cases "fst c < 128")
  case True
  from utf8_decode_ascii_char [OF d True]
  have bs: "bs = [char_of (fst c)]" "snd c = bs" by simp_all
  then obtain b' where b': "bs' = [b']" "ascii_tolower (char_of (fst c)) = ascii_tolower b'"
    using s by (cases bs') auto
  have lo: "(of_char b' :: nat) < 128"
  proof (rule ccontr)
    assume "\<not> (of_char b' :: nat) < 128"
    then have "char_of (fst c) = b'"
      using ascii_tolower_high [of b' "char_of (fst c)"] b'(2) by simp
    then have "(of_char b' :: nat) = fst c mod 256" by auto
    then show False using True \<open>\<not> (of_char b' :: nat) < 128\<close> by simp
  qed
  have fc: "fst c = of_char (char_of (fst c) :: char)" using True by simp
  have "fold_letter (fst c) = of_char (ascii_tolower (char_of (fst c)))"
    by (subst fc) (rule fold_letter_of_char)
  also have "\<dots> = fold_letter (of_char b')" by (simp add: b'(2) fold_letter_of_char)
  finally have "fold_letter (fst c) = fold_letter (fst (of_char b' :: nat, [b']))" by simp
  moreover have "utf8_decode bs' = Some [(of_char b', [b'])]" using lo b'(1) by simp
  moreover have "map ascii_tolower (snd c) = map ascii_tolower (snd (of_char b' :: nat, [b']))"
    using bs b' by simp
  ultimately show ?thesis by blast
next
  case False
  then have "list_all (\<lambda>b. (128::nat) \<le> of_char b) bs" using utf8_char_high [OF d] by simp
  then have "bs' = bs" using s by (rule ascii_tolower_high_list)
  then show ?thesis using d by auto
qed

lemma utf8_decode_same_case:
  assumes "map ascii_tolower s = map ascii_tolower s'" "utf8_decode s = Some cs"
  shows "\<exists>cs'. utf8_decode s' = Some cs' \<and> list_all2 char_rel cs cs'"
  using assms
proof (induction cs arbitrary: s s')
  case Nil
  then have "s = []" by (simp add: utf8_decode_Nil_iff)
  then have "s' = []" using Nil.prems(1) by simp
  then show ?case by simp
next
  case (Cons c cs)
  from utf8_decode_ConsD [OF Cons.prems(2)]
  obtain r where r: "s = snd c @ r" "utf8_decode r = Some cs" "utf8_decode (snd c) = Some [c]"
    by blast
  let ?n = "length (snd c)"
  have l: "length s = length s'" using Cons.prems(1) by (rule map_eq_imp_length_eq)
  have "map ascii_tolower (take ?n s) = map ascii_tolower (take ?n s')"
    using Cons.prems(1) by (simp add: take_map [symmetric])
  then have hd: "map ascii_tolower (snd c) = map ascii_tolower (take ?n s')" using r(1) by simp
  have "map ascii_tolower (drop ?n s) = map ascii_tolower (drop ?n s')"
    using Cons.prems(1) by (simp add: drop_map [symmetric])
  then have tl: "map ascii_tolower r = map ascii_tolower (drop ?n s')" using r(1) by simp
  from utf8_char_same_case [OF r(3) hd]
  obtain c' where c': "utf8_decode (take ?n s') = Some [c']"
      "fold_letter (fst c) = fold_letter (fst c')"
      "map ascii_tolower (snd c) = map ascii_tolower (snd c')"
    by blast
  from Cons.IH [OF tl r(2)]
  obtain cs' where cs': "utf8_decode (drop ?n s') = Some cs'" "list_all2 char_rel cs cs'"
    by blast
  have "utf8_decode (take ?n s' @ drop ?n s') = Some (c' # cs')"
    using utf8_decode_char_append [OF c'(1), of "drop ?n s'"] cs'(1) by simp
  then have "utf8_decode s' = Some (c' # cs')" by simp
  moreover have "list_all2 char_rel (c # cs) (c' # cs')"
    using c'(2,3) cs'(2) by (simp add: char_rel_def)
  ultimately show ?case by blast
qed

lemma char_rel_parts:
  assumes "list_all2 char_rel a a'"
  shows "map (\<lambda>c. fold_letter (fst c)) a = map (\<lambda>c. fold_letter (fst c)) a'"
    and "same_up_to_case (concat (map snd a)) (concat (map snd a'))"
  using assms
  by (induction rule: list_all2_induct) (simp_all add: char_rel_def same_up_to_case_def)

lemma same_case_lit_at:
  assumes "list_all2 char_rel s s'"
  shows "lit_at True l s = lit_at True l s'"
proof -
  have "length s = length s'" using assms by (rule list_all2_lengthD)
  moreover have "map (\<lambda>c. fold_letter (fst c)) (take (length l) s)
      = map (\<lambda>c. fold_letter (fst c)) (take (length l) s')"
    by (rule char_rel_parts(1)) (rule list_all2_takeI [OF assms])
  ultimately show ?thesis by (simp add: lit_at_def lit_chars_fold comp_def)
qed

lemma in_class_fold:
  "fold_letter cp = fold_letter cp' \<Longrightarrow> in_class True ranges cp = in_class True ranges cp'"
  by (simp add: in_class_def list_ex_iff case_variants_fold [of cp cp'])

lemma same_case_class:
  assumes "list_all2 char_rel a a'"
  shows "list_all (\<lambda>c. in_class True ranges (fst c)) a
       = list_all (\<lambda>c. in_class True ranges (fst c)) a'"
  using assms
proof (induction rule: list_all2_induct)
  case Nil
  show ?case by simp
next
  case (Cons x xs y ys)
  have "in_class True ranges (fst x) = in_class True ranges (fst y)"
    by (rule in_class_fold) (use Cons.hyps(1) in \<open>simp add: char_rel_def\<close>)
  then show ?case using Cons.IH by simp
qed

lemma fold_letter_newline:
  "is_newline (map fold_letter xs) = is_newline xs"
proof -
  have f: "fold_letter x = n \<longleftrightarrow> x = n"
    if "n \<in> {0x0A, 0x0B, 0x0C, 0x0D, 0x85, 0x2028, 0x2029}" for x n
    using that by (auto simp: fold_letter_def)
  show ?thesis
    by (auto simp: is_newline_def map_eq_Cons_conv f)
qed

lemma same_case_eol:
  assumes "list_all2 char_rel s s'"
  shows "(s = [] \<or> is_newline (map fst s)) = (s' = [] \<or> is_newline (map fst s'))"
proof -
  have "length s = length s'" using assms by (rule list_all2_lengthD)
  then have e: "(s = []) = (s' = [])" by auto
  have "map fold_letter (map fst s) = map fold_letter (map fst s')"
    using char_rel_parts(1) [OF assms] by (simp add: comp_def)
  then have "is_newline (map fst s) = is_newline (map fst s')"
    using fold_letter_newline [of "map fst s"] fold_letter_newline [of "map fst s'"] by simp
  then show ?thesis using e by simp
qed

lemma rx_run_same_case:
  assumes "list_all2 char_rel s s'"
    and "list_all2 same_up_to_case caps caps'"
  shows "rel_option (list_all2 same_up_to_case)
           (rx_run True r pos s caps) (rx_run True r pos s' caps')"
  using assms
proof (induction r arbitrary: pos s s' caps caps')
  case Nil
  then show ?case by (simp add: rx_run.simps)
next
  case (Cons i r)
  note s = Cons.prems(1) and c = Cons.prems(2)
  show ?case
  proof (cases i)
    case Bol
    then show ?thesis using Cons.IH [OF s c] by (simp add: rx_run.simps)
  next
    case Eol
    then show ?thesis using Cons.IH [OF s c] same_case_eol [OF s] by (simp add: rx_run.simps)
  next
    case (Lit l)
    show ?thesis
      using Cons.IH [OF list_all2_dropI [OF s, of "length l"] c, of "pos + length l"]
        same_case_lit_at [OF s, of l]
      by (simp add: Lit rx_run.simps)
  next
    case (Opt l)
    have t: "rel_option (list_all2 same_up_to_case)
        (rx_run True r (pos + length l) (drop (length l) s) caps)
        (rx_run True r (pos + length l) (drop (length l) s') caps')"
      by (rule Cons.IH [OF list_all2_dropI [OF s] c])
    have k: "rel_option (list_all2 same_up_to_case)
        (rx_run True r pos s caps) (rx_run True r pos s' caps')"
      by (rule Cons.IH [OF s c])
    show ?thesis
      using t k same_case_lit_at [OF s, of l]
      by (auto simp: Opt rx_run.simps split: option.splits)
  next
    case (Cap ranges n)
    have a: "list_all2 char_rel (take n s) (take n s')"
      by (rule list_all2_takeI [OF s])
    have c': "list_all2 same_up_to_case (caps @ [concat (map snd (take n s))])
        (caps' @ [concat (map snd (take n s'))])"
    proof (rule list_all2_appendI [OF c])
      show "list_all2 same_up_to_case [concat (map snd (take n s))] [concat (map snd (take n s'))]"
        using char_rel_parts(2) [OF a] by simp
    qed
    show ?thesis
      using Cons.IH [OF list_all2_dropI [OF s, of n] c', of "pos + n"]
        same_case_class [OF a, of ranges] list_all2_lengthD [OF s]
      by (simp add: Cap rx_run.simps)
  qed
qed

lemma g_regex_match_same_case:
  assumes "map ascii_tolower s = map ascii_tolower s'"
  shows "rel_option (list_all2 same_up_to_case)
           (case utf8_decode s of None \<Rightarrow> None | Some cs \<Rightarrow> rx_run True r 0 cs [])
           (case utf8_decode s' of None \<Rightarrow> None | Some cs \<Rightarrow> rx_run True r 0 cs [])"
proof (cases "utf8_decode s")
  case None
  have "utf8_decode s' = None"
  proof (rule ccontr)
    assume "utf8_decode s' \<noteq> None"
    then obtain cs' where "utf8_decode s' = Some cs'" by blast
    from utf8_decode_same_case [OF assms [symmetric] this] None show False by simp
  qed
  then show ?thesis using None by simp
next
  case (Some cs)
  from utf8_decode_same_case [OF assms Some]
  obtain cs' where cs': "utf8_decode s' = Some cs'" "list_all2 char_rel cs cs'" by blast
  show ?thesis
    using Some cs'(1) rx_run_same_case [OF cs'(2), of "[]" "[]" r 0] by simp
qed

lemma valid_utf8_same_case:
  assumes "map ascii_tolower s = map ascii_tolower s'" "valid_utf8 s"
  shows "valid_utf8 s'"
proof -
  from assms(2) obtain cs where "utf8_decode s = Some cs" by (auto simp: valid_utf8_def)
  from utf8_decode_same_case [OF assms(1) this] show ?thesis by (auto simp: valid_utf8_def)
qed

lemma fetch_same_case:
  assumes "list_all2 same_up_to_case m m'"
  shows "same_up_to_case (g_match_info_fetch m n) (g_match_info_fetch m' n)"
proof -
  have l: "length m = length m'" using assms by (rule list_all2_lengthD)
  show ?thesis
  proof (cases "1 \<le> n \<and> n \<le> length m")
    case True
    then have "same_up_to_case (m ! (n - 1)) (m' ! (n - 1))"
      using list_all2_nthD [OF assms, of "n - 1"] by (cases n) simp_all
    then show ?thesis using True l by (simp add: g_match_info_fetch_def)
  next
    case False
    then show ?thesis using l by (auto simp: g_match_info_fetch_def same_up_to_case_def)
  qed
qed

lemma classify_same_case:
  assumes "map ascii_tolower s = map ascii_tolower s'"
  shows "(classify s = Invalid \<longleftrightarrow> classify s' = Invalid)
    \<and> (classify s = FileRef h k \<longrightarrow>
         (\<exists>h' k'. classify s' = FileRef h' k' \<and> same_up_to_case h h' \<and> same_up_to_case k k'))
    \<and> (classify s = FolderRef h k \<longrightarrow>
         (\<exists>h' k'. classify s' = FolderRef h' k' \<and> same_up_to_case h h' \<and> same_up_to_case k k'))"
proof -
  have f: "rel_option (list_all2 same_up_to_case)
      (g_regex_match file_regex s) (g_regex_match file_regex s')"
    unfolding g_regex_match_file by (rule g_regex_match_same_case [OF assms])
  have d: "rel_option (list_all2 same_up_to_case)
      (g_regex_match folder_regex s) (g_regex_match folder_regex s')"
    unfolding g_regex_match_folder by (rule g_regex_match_same_case [OF assms])
  show ?thesis
  proof (cases "g_regex_match file_regex s")
    case (Some m)
    then obtain m' where m': "g_regex_match file_regex s' = Some m'"
        "list_all2 same_up_to_case m m'"
      using f by (auto simp: option_rel_Some1)
    show ?thesis
      using Some m' fetch_same_case [OF m'(2), of 1] fetch_same_case [OF m'(2), of 2]
      by (auto simp: classify_def)
  next
    case None
    then have n': "g_regex_match file_regex s' = None" using f by simp
    show ?thesis
    proof (cases "g_regex_match folder_regex s")
      case (Some m)
      then obtain m' where m': "g_regex_match folder_regex s' = Some m'"
          "list_all2 same_up_to_case m m'"
        using d by (auto simp: option_rel_Some1)
      show ?thesis
        using None n' Some m' fetch_same_case [OF m'(2), of 1] fetch_same_case [OF m'(2), of 2]
        by (auto simp: classify_def)
    next
      case None': None
      then have "g_regex_match folder_regex s' = None" using d by simp
      then show ?thesis using None n' None' by (simp add: classify_def)
    qed
  qed
qed

lemma tolower_upcase_from: "map ascii_tolower (upcase_from I i s) = map ascii_tolower s"
  by (induction s arbitrary: i) simp_all

section \<open>Case insensitivity\<close>

text \<open>
  C4. Upper-casing the ASCII letters at any positions of a link of valid UTF-8 gives
  valid UTF-8 again and does not change how the link is classified: invalid stays
  invalid, and a file (folder) reference stays a file (folder) reference. The handle and
  the key are the substrings of the link as given, so those of the upper-cased link equal
  those of the original up to the case of ASCII letters; they are not identical when a
  letter of the handle or of the key was upper-cased.
\<close>

theorem case_insensitive_classification:
  "valid_utf8 s \<longrightarrow>
     valid_utf8 (upcase_some I s)
     \<and> (classify (upcase_some I s) = Invalid \<longleftrightarrow> classify s = Invalid)
     \<and> (classify s = FileRef h k \<longrightarrow>
          (\<exists>h' k'. classify (upcase_some I s) = FileRef h' k'
                   \<and> same_up_to_case h h' \<and> same_up_to_case k k'))
     \<and> (classify s = FolderRef h k \<longrightarrow>
          (\<exists>h' k'. classify (upcase_some I s) = FolderRef h' k'
                   \<and> same_up_to_case h h' \<and> same_up_to_case k k'))"
proof -
  have e: "map ascii_tolower s = map ascii_tolower (upcase_some I s)"
    by (simp add: upcase_some_def tolower_upcase_from)
  from classify_same_case [OF e, of h k] valid_utf8_same_case [OF e] show ?thesis by blast
qed

theorem case_insensitive_classification_witness:
  "valid_utf8 lower_case_link
   \<and> classify lower_case_link = FileRef ''abcdefgh'' ''0123456789012345678901234567890123456789_-z''
   \<and> valid_utf8 (upcase_some [0, 1, 2, 3, 4, 18, 19, 20, 21, 22, 23, 24, 25] lower_case_link)
   \<and> (\<exists>h' k'. classify (upcase_some [0, 1, 2, 3, 4, 18, 19, 20, 21, 22, 23, 24, 25] lower_case_link)
                  = FileRef h' k'
              \<and> same_up_to_case ''abcdefgh'' h'
              \<and> same_up_to_case ''0123456789012345678901234567890123456789_-z'' k')"
proof -
  have v: "valid_utf8 lower_case_link"
    by (simp add: valid_utf8_def lower_case_link_def)
  have c: "classify lower_case_link =
      FileRef ''abcdefgh'' ''0123456789012345678901234567890123456789_-z''"
    by (simp add: classify_def regex_defs rx_run.simps rx_search.simps lower_case_link_def)
  show ?thesis
    using v c case_insensitive_classification
      [of lower_case_link "[0, 1, 2, 3, 4, 18, 19, 20, 21, 22, 23, 24, 25]" "''abcdefgh''"
        "''0123456789012345678901234567890123456789_-z''"]
    by blast
qed

text \<open>
  The claim as the spec states it fails on a link with a lower-case handle: the link and
  the link with its handle upper-cased are both file references, with different handles.
  It also fails, in the tag itself, on a letter outside ASCII: the matcher does not take
  U+0131 (dotless i), whose upper case is the letter I, for a letter of the alphabet, so a
  link with U+0131 in its handle is invalid and the same link with that letter upper-cased
  is a file reference.
\<close>

theorem upper_cased_handle_differs:
  "classify lower_case_link = FileRef ''abcdefgh'' ''0123456789012345678901234567890123456789_-z''
   \<and> upcase_some [18, 19, 20, 21, 22, 23, 24, 25] lower_case_link =
       ''https://mega.nz/#!ABCDEFGH!0123456789012345678901234567890123456789_-z''
   \<and> classify (upcase_some [18, 19, 20, 21, 22, 23, 24, 25] lower_case_link) =
       FileRef ''ABCDEFGH'' ''0123456789012345678901234567890123456789_-z''
   \<and> classify (upcase_some [18, 19, 20, 21, 22, 23, 24, 25] lower_case_link) \<noteq> classify lower_case_link
   \<and> valid_utf8 dotless_i_link
   \<and> classify dotless_i_link = Invalid
   \<and> classify ''https://mega.nz/#!Ibcdefgh!0123456789012345678901234567890123456789_-z'' =
       FileRef ''Ibcdefgh'' ''0123456789012345678901234567890123456789_-z''"
proof -
  have u: "upcase_some [18, 19, 20, 21, 22, 23, 24, 25] lower_case_link =
       ''https://mega.nz/#!ABCDEFGH!0123456789012345678901234567890123456789_-z''"
    by (simp add: upcase_some_def lower_case_link_def ascii_toupper_def char_of_eq_nat)
  have a: "classify lower_case_link =
      FileRef ''abcdefgh'' ''0123456789012345678901234567890123456789_-z''"
    by (simp add: classify_def regex_defs rx_run.simps rx_search.simps lower_case_link_def)
  have b: "classify ''https://mega.nz/#!ABCDEFGH!0123456789012345678901234567890123456789_-z'' =
      FileRef ''ABCDEFGH'' ''0123456789012345678901234567890123456789_-z''"
    by (simp add: classify_def regex_defs rx_run.simps rx_search.simps)
  have v: "valid_utf8 dotless_i_link"
    by (simp add: valid_utf8_def dotless_i_link_def utf8_tail_def)
  have c: "classify dotless_i_link = Invalid"
    by (simp add: classify_def regex_defs rx_run.simps rx_search.simps dotless_i_link_def)
  have d: "classify ''https://mega.nz/#!Ibcdefgh!0123456789012345678901234567890123456789_-z'' =
      FileRef ''Ibcdefgh'' ''0123456789012345678901234567890123456789_-z''"
    by (simp add: classify_def regex_defs rx_run.simps rx_search.simps)
  show ?thesis
    unfolding u using a b v c d by simp
qed

end
